theory Spec2Isabelle
  imports Main
begin

section \<open>Strings\<close>

text \<open>
  JavaScript strings are modelled as \<open>string\<close>: lists of characters, a character being
  a code unit below 256. The helpers below are the string methods the source calls:
  \<open>startsWith\<close>, \<open>endsWith\<close>, \<open>trim\<close>, \<open>split\<close> and the concatenation of segments with
  a separator. \<open>trim\<close> removes the white space and the line terminators of ECMAScript;
  among the characters below 256 these are U+0009 to U+000D, U+0020 and U+00A0.
\<close>

definition startsWith :: "string \<Rightarrow> string \<Rightarrow> bool" where
  "startsWith s pre = (take (length pre) s = pre)"

definition endsWith :: "string \<Rightarrow> string \<Rightarrow> bool" where
  "endsWith s suf = (length suf \<le> length s \<and> drop (length s - length suf) s = suf)"

definition isSpace :: "char \<Rightarrow> bool" where
  "isSpace c = (c = CHR '' '' \<or> c = CHR 0x09 \<or> c = CHR 0x0A \<or> c = CHR 0x0B
     \<or> c = CHR 0x0C \<or> c = CHR 0x0D \<or> c = CHR 0xA0)"

definition trim :: "string \<Rightarrow> string" where
  "trim s = rev (dropWhile isSpace (rev (dropWhile isSpace s)))"

fun intercalate :: "string \<Rightarrow> string list \<Rightarrow> string" where
  "intercalate sep [] = []"
| "intercalate sep [x] = x"
| "intercalate sep (x # y # ys) = x @ sep @ intercalate sep (y # ys)"

text \<open>\<open>s.split(c)\<close> for a one-character separator: always at least one segment.\<close>

fun split_char :: "char \<Rightarrow> string \<Rightarrow> string list" where
  "split_char c [] = [[]]"
| "split_char c (x # xs) =
     (if x = c then [] # split_char c xs
      else (case split_char c xs of
              [] \<Rightarrow> [[x]]
            | y # ys \<Rightarrow> (x # y) # ys))"

text \<open>
  \<open>s.split("::")\<close>: the string is cut at every occurrence of the separator, found from
  the left. The first argument accumulates the current segment, reversed.
\<close>

fun split_colons :: "string \<Rightarrow> string \<Rightarrow> string list" where
  "split_colons cur [] = [rev cur]"
| "split_colons cur [c] = [rev (c # cur)]"
| "split_colons cur (c # d # cs) =
     (if c = CHR '':'' \<and> d = CHR '':'' then rev cur # split_colons [] cs
      else split_colons (c # cur) (d # cs))"

section \<open>The path module (POSIX)\<close>

text \<open>
  The source imports \<open>path\<close> from the Deno standard library (std 0.165.0,
  \<open>path/mod.ts\<close>), which is not part of the repository. The functions it calls
  (\<open>dirname\<close>, \<open>basename\<close>, \<open>normalize\<close>, \<open>join\<close>, \<open>resolve\<close>) are modelled
  here after the library's POSIX implementation.

  \<open>dirname\<close> scans the path from its last character down to index 1: trailing slashes are
  skipped, then the last component, and the path is cut at the slash found there. With no
  such slash the result is \<open>/\<close> for a rooted path and \<open>.\<close> otherwise.
\<close>

definition dirname :: "string \<Rightarrow> string" where
  "dirname path =
     (if path = [] then ''.''
      else
        let hasRoot = (hd path = CHR ''/'');
            r = dropWhile (\<lambda>c. c \<noteq> CHR ''/'')
                  (dropWhile (\<lambda>c. c = CHR ''/'') (rev (tl path)));
            end = length r
        in if r = [] then (if hasRoot then ''/'' else ''.'')
           else if hasRoot \<and> end = 1 then ''//''
           else take end path)"

text \<open>\<open>basename\<close> (no extension argument): the last component, trailing slashes ignored.\<close>

definition basename :: "string \<Rightarrow> string" where
  "basename path =
     rev (takeWhile (\<lambda>c. c \<noteq> CHR ''/'') (dropWhile (\<lambda>c. c = CHR ''/'') (rev path)))"

text \<open>
  \<open>normalizeString\<close> walks over the segments between slashes, keeping the result built so
  far: an empty segment and \<open>.\<close> are dropped; \<open>..\<close> removes the last kept segment when
  there is one that is not itself \<open>..\<close>, and is otherwise kept only when the path may
  climb above its start (\<open>allowAboveRoot\<close>); any other segment is appended.
\<close>

definition normalizeStep :: "bool \<Rightarrow> string list \<Rightarrow> string \<Rightarrow> string list" where
  "normalizeStep allowAboveRoot res seg =
     (if seg = [] \<or> seg = ''.'' then res
      else if seg = ''..'' then
        (if res \<noteq> [] \<and> last res \<noteq> ''..'' then butlast res
         else if allowAboveRoot then res @ [''..'']
         else res)
      else res @ [seg])"

definition normalizeString :: "string \<Rightarrow> bool \<Rightarrow> string" where
  "normalizeString path allowAboveRoot =
     intercalate ''/'' (foldl (normalizeStep allowAboveRoot) [] (split_char CHR ''/'' path))"

definition normalize :: "string \<Rightarrow> string" where
  "normalize path =
     (if path = [] then ''.''
      else
        let isAbsolute = (hd path = CHR ''/'');
            trailingSeparator = (last path = CHR ''/'');
            p1 = normalizeString path (\<not> isAbsolute);
            p2 = (if p1 = [] \<and> \<not> isAbsolute then ''.'' else p1);
            p3 = (if p2 \<noteq> [] \<and> trailingSeparator then p2 @ ''/'' else p2)
        in if isAbsolute then ''/'' @ p3 else p3)"

definition join :: "string list \<Rightarrow> string" where
  "join paths =
     (let joined = intercalate ''/'' (filter (\<lambda>p. p \<noteq> []) paths)
      in if joined = [] then ''.'' else normalize joined)"

text \<open>
  \<open>resolve\<close> with one argument: a relative path is resolved against the current working
  directory (a parameter here), and the result has no trailing slash.
\<close>

definition resolve :: "string \<Rightarrow> string \<Rightarrow> string" where
  "resolve cwd p =
     (let absOf = (\<lambda>s. s \<noteq> [] \<and> hd s = CHR ''/'');
          r1 = (if p = [] then [] else p @ ''/'');
          r2 = (if absOf p \<or> cwd = [] then r1 else cwd @ ''/'' @ r1);
          resolvedAbsolute = (absOf p \<or> absOf cwd);
          r3 = normalizeString r2 (\<not> resolvedAbsolute)
      in if resolvedAbsolute then ''/'' @ r3
         else if r3 \<noteq> [] then r3 else ''.'')"

section \<open>The environment\<close>

text \<open>
  What the program reads from outside: the outcome of running \<open>rustup doc --path\<close>
  (an exception of \<open>cmd.output()\<close>, or the success flag and the decoded output), the
  variable \<open>HOME\<close>, the listing of a directory by \<open>Deno.readDir\<close> (or its exception),
  whether \<open>Deno.stat\<close> succeeds on a path, the entries that \<open>walk\<close> of the Deno standard
  library gives for a root (with the fields the program reads), and the working
  directory. An exception is a value of \<open>error\<close>.

  The regular expressions of the program are interpreted below, for a fragment of the
  pattern syntax. \<open>stripDir\<close> builds its pattern from a path, which may leave the
  fragment; what the JavaScript engine does with such a pattern is the parameter
  \<open>hostRegExp\<close>: the exception of \<open>new RegExp(pattern)\<close>, or else the function that
  \<open>f.replace(new RegExp(pattern), "")\<close> is of \<open>f\<close>.
\<close>

datatype error = NotFound | CommandError | SyntaxError | TypeError

text \<open>A generator that has run to its end: what it yielded, and the exception that ended
  it, if any.\<close>

type_synonym 'a gen = "'a list \<times> error option"

datatype cmd_output = CmdThrows error | CmdOutput bool string

record DirEntry =
  de_name :: string
  de_isDirectory :: bool

record WalkEntry =
  we_path :: string
  we_name :: string
  we_isFile :: bool

record env =
  rustup :: cmd_output
  HOME :: "string option"
  readDir :: "string \<Rightarrow> error + DirEntry list"
  stat :: "string \<Rightarrow> bool"
  walk :: "string \<Rightarrow> WalkEntry gen"
  cwd :: string
  hostRegExp :: "string \<Rightarrow> error + (string \<Rightarrow> string)"

section \<open>Locating the documentation roots\<close>

definition fsExists :: "env \<Rightarrow> string \<Rightarrow> bool" where
  "fsExists e p = stat e p"

text \<open>
  \<open>findStdDocDir\<close>. The command's failure (an exception of \<open>cmd.output()\<close>, or an
  unsuccessful exit) is caught and the fallback runs. \<open>Deno.readDir\<close> stands outside the
  \<open>try\<close>: its exception leaves the function. The first loop stops at the first
  \<open>stable-\<close> directory; the second, run when the first found none, keeps the last
  \<open>nightly-\<close> directory. Both loops list the same directory of the same environment, so
  the listing is read once here.
\<close>

definition findStdDocDir :: "env \<Rightarrow> error + string option" where
  "findStdDocDir e =
     (let viaCommand =
            (case rustup e of
               CmdThrows _ \<Rightarrow> None
             | CmdOutput success stdout \<Rightarrow>
                 if success then Some (dirname (trim stdout)) else None)
      in case viaCommand of
           Some d \<Rightarrow> Inr (Some d)
         | None \<Rightarrow>
             (case HOME e of
                None \<Rightarrow> Inr None
              | Some homeDir \<Rightarrow>
                  let toolChainsDir = join [homeDir, ''.rustup/toolchains'']
                  in case readDir e toolChainsDir of
                       Inl err \<Rightarrow> Inl err
                     | Inr entries \<Rightarrow>
                         let stable = find (\<lambda>entry. de_isDirectory entry
                                               \<and> startsWith (de_name entry) ''stable-'') entries;
                             dir = (case stable of
                                      Some entry \<Rightarrow> Some (de_name entry)
                                    | None \<Rightarrow>
                                        foldl (\<lambda>d entry.
                                                 if de_isDirectory entry
                                                    \<and> startsWith (de_name entry) ''nightly-''
                                                 then Some (de_name entry) else d)
                                              None entries)
                         in case dir of
                              None \<Rightarrow> Inr None
                            | Some d \<Rightarrow>
                                if d = [] then Inr (Some d)
                                else Inr (Some (join [d, ''share/doc/rust/html/'']))))"

lemma dropWhile_twice_len:
  "dropWhile (\<lambda>c. c \<noteq> a) (dropWhile (\<lambda>c. c = a) xs) \<noteq> []
   \<Longrightarrow> Suc (length (dropWhile (\<lambda>c. c \<noteq> a) (dropWhile (\<lambda>c. c = a) xs))) \<le> length xs"
proof (induction xs)
  case Nil
  then show ?case by simp
next
  case (Cons x xs)
  show ?case
  proof (cases "x = a")
    case True
    with Cons show ?thesis by simp
  next
    case False
    have "length (dropWhile (\<lambda>c. c \<noteq> a) xs) \<le> length xs"
      by (rule length_dropWhile_le)
    with False show ?thesis by simp
  qed
qed

lemma dirname_cases:
  "p \<noteq> [] \<Longrightarrow>
     dirname p = ''/'' \<or> dirname p = ''.'' \<or> dirname p = ''//'' \<and> 3 \<le> length p
     \<or> (\<exists>n. Suc (Suc n) \<le> length p \<and> dirname p = take n p)"
proof -
  assume ne: "p \<noteq> []"
  define r where "r = dropWhile (\<lambda>c. c \<noteq> CHR ''/'') (dropWhile (\<lambda>c. c = CHR ''/'') (rev (tl p)))"
  have d: "dirname p = (if r = [] then (if hd p = CHR ''/'' then ''/'' else ''.'')
           else if hd p = CHR ''/'' \<and> length r = 1 then ''//''
           else take (length r) p)"
    unfolding dirname_def r_def Let_def using ne by simp
  show ?thesis
  proof (cases "r = []")
    case True
    with d show ?thesis by simp
  next
    case False
    then have "Suc (length r) \<le> length (rev (tl p))"
      unfolding r_def by (rule dropWhile_twice_len)
    then have len: "Suc (Suc (length r)) \<le> length p" using ne by (cases p) simp_all
    from False have "0 < length r" by simp
    with len have "3 \<le> length p" by linarith
    with d False len show ?thesis by auto
  qed
qed

lemma dirname_shorter:
  assumes "p \<noteq> []"
  shows "dirname p = ''/'' \<or> dirname p = ''.'' \<or> length (dirname p) < length p"
  using dirname_cases [OF assms] by auto

text \<open>
  \<open>findCargoProjectDir\<close>. Besides its result the model returns the paths it passed to
  \<open>fsExists\<close>, in the order of the calls.
\<close>

function findCargoProjectDir :: "env \<Rightarrow> string \<Rightarrow> string option \<times> string list" where
  "findCargoProjectDir e p =
     (if p = ''/'' \<or> p = ''.'' \<or> p = [] then (None, [])
      else
        let tomlFile = join [p, ''Cargo.toml'']
        in if fsExists e tomlFile then (Some (resolve (cwd e) p), [tomlFile])
           else (case findCargoProjectDir e (dirname p) of
                   (r, probes) \<Rightarrow> (r, tomlFile # probes)))"
  by pat_completeness auto
termination
proof (relation "measure (\<lambda>(e, p). if p = ''/'' \<or> p = ''.'' \<or> p = [] then 0 else Suc (length p))")
  show "wf (measure (\<lambda>(e, p). if p = ''/'' \<or> p = ''.'' \<or> p = [] then 0 else Suc (length p)))"
    by (rule wf_measure)
next
  fix e :: env and p :: string and x :: string
  assume a: "\<not> (p = ''/'' \<or> p = ''.'' \<or> p = [])"
  then have "p \<noteq> []" by blast
  from dirname_shorter [OF this]
  have "(if dirname p = ''/'' \<or> dirname p = ''.'' \<or> dirname p = [] then 0
         else Suc (length (dirname p))) < Suc (length p)"
    by (cases "dirname p = ''/'' \<or> dirname p = ''.'' \<or> dirname p = []") auto
  with a show "((e, dirname p), (e, p))
          \<in> measure (\<lambda>(e, p). if p = ''/'' \<or> p = ''.'' \<or> p = [] then 0 else Suc (length p))"
    unfolding in_measure by (simp only: prod.case if_False)
qed

declare findCargoProjectDir.simps [simp del]

definition findDocDirs :: "env \<Rightarrow> string \<Rightarrow> error + string list" where
  "findDocDirs e p =
     (case findStdDocDir e of
        Inl err \<Rightarrow> Inl err
      | Inr stdDocDir \<Rightarrow>
          let docs = (case stdDocDir of
                        None \<Rightarrow> []
                      | Some d \<Rightarrow> if fsExists e d then [d] else []);
              projectRootDir = fst (findCargoProjectDir e p)
          in case projectRootDir of
               None \<Rightarrow> Inr docs
             | Some root \<Rightarrow>
                 let docDir = join [root, ''target/doc/'']
                 in if fsExists e docDir then Inr (docs @ [docDir]) else Inr docs)"

section \<open>Regular expressions\<close>

text \<open>
  The regular expressions of the source, and those that \<open>stripDir\<close> builds at run time,
  are sequences of single-character atoms, each with an optional greedy quantifier,
  the assertions \<open>^\<close> and \<open>$\<close> (no flags: start and end of the input), and capturing groups
  that are not nested. \<open>rmatch\<close> is the backtracking matcher of such a sequence at one
  position: a greedy quantifier first takes a character and gives it back when the rest
  of the pattern fails. Its arguments are the pattern, whether the position is the start
  of the input, the input left, the input left when the open group began, and the groups
  captured so far; it returns the input left after the match, and the groups.
\<close>

datatype atom = Lit char | NotLit char | AnyChar

fun accepts :: "atom \<Rightarrow> char \<Rightarrow> bool" where
  "accepts (Lit a) c = (c = a)"
| "accepts (NotLit a) c = (c \<noteq> a)"
| "accepts AnyChar c = (c \<noteq> CHR 0x0A \<and> c \<noteq> CHR 0x0D)"

datatype node = One atom | Star atom | Plus atom | Opt atom | Bol | Eol | GroupOpen | GroupClose

fun rmatch :: "node list \<Rightarrow> bool \<Rightarrow> string \<Rightarrow> string \<Rightarrow> string list
    \<Rightarrow> (string \<times> string list) option" where
  "rmatch [] b s mk caps = Some (s, caps)"
| "rmatch (Bol # r) b s mk caps = (if b then rmatch r b s mk caps else None)"
| "rmatch (Eol # r) b s mk caps = (if s = [] then rmatch r b s mk caps else None)"
| "rmatch (GroupOpen # r) b s mk caps = rmatch r b s s caps"
| "rmatch (GroupClose # r) b s mk caps =
     rmatch r b s mk (caps @ [take (length mk - length s) mk])"
| "rmatch (One a # r) b [] mk caps = None"
| "rmatch (One a # r) b (c # cs) mk caps =
     (if accepts a c then rmatch r False cs mk caps else None)"
| "rmatch (Star a # r) b [] mk caps = rmatch r b [] mk caps"
| "rmatch (Star a # r) b (c # cs) mk caps =
     (if accepts a c then
        (case rmatch (Star a # r) False cs mk caps of
           Some m \<Rightarrow> Some m
         | None \<Rightarrow> rmatch r b (c # cs) mk caps)
      else rmatch r b (c # cs) mk caps)"
| "rmatch (Plus a # r) b [] mk caps = None"
| "rmatch (Plus a # r) b (c # cs) mk caps =
     (if accepts a c then rmatch (Star a # r) False cs mk caps else None)"
| "rmatch (Opt a # r) b [] mk caps = rmatch r b [] mk caps"
| "rmatch (Opt a # r) b (c # cs) mk caps =
     (if accepts a c then
        (case rmatch r False cs mk caps of
           Some m \<Rightarrow> Some m
         | None \<Rightarrow> rmatch r b (c # cs) mk caps)
      else rmatch r b (c # cs) mk caps)"

text \<open>
  \<open>RegExp.prototype.exec\<close>: the match at the leftmost position that has one. The result
  is the input before the match, the match, the input after it, and the groups.
\<close>

fun rexec_from :: "node list \<Rightarrow> bool \<Rightarrow> string \<Rightarrow> string
    \<Rightarrow> (string \<times> string \<times> string \<times> string list) option" where
  "rexec_from re b pre [] =
     (case rmatch re b [] [] [] of
        Some (rest, caps) \<Rightarrow> Some (rev pre, [], rest, caps)
      | None \<Rightarrow> None)"
| "rexec_from re b pre (c # cs) =
     (case rmatch re b (c # cs) (c # cs) [] of
        Some (rest, caps) \<Rightarrow>
          Some (rev pre, take (length (c # cs) - length rest) (c # cs), rest, caps)
      | None \<Rightarrow> rexec_from re False (c # pre) cs)"

definition RegExp_exec :: "node list \<Rightarrow> string
    \<Rightarrow> (string \<times> string \<times> string \<times> string list) option" where
  "RegExp_exec re s = rexec_from re True [] s"

text \<open>\<open>s.replace(re, rep)\<close> without the \<open>g\<close> flag (\<open>rep\<close> has no \<open>$\<close> pattern).\<close>

definition replace_first :: "node list \<Rightarrow> string \<Rightarrow> string \<Rightarrow> string" where
  "replace_first re rep s =
     (case RegExp_exec re s of
        None \<Rightarrow> s
      | Some (before, matched, after, caps) \<Rightarrow> before @ rep @ after)"

text \<open>
  \<open>s.replace(re, rep)\<close> with the \<open>g\<close> flag: after a match the search goes on where the
  match ended; after an empty match one character is copied.
\<close>

function replace_all :: "node list \<Rightarrow> string \<Rightarrow> bool \<Rightarrow> string \<Rightarrow> string" where
  "replace_all re rep b [] =
     (case rmatch re b [] [] [] of Some m \<Rightarrow> rep | None \<Rightarrow> [])"
| "replace_all re rep b (c # cs) =
     (case rmatch re b (c # cs) (c # cs) [] of
        None \<Rightarrow> c # replace_all re rep False cs
      | Some (rest, caps) \<Rightarrow>
          if length rest < length (c # cs) then rep @ replace_all re rep False rest
          else rep @ c # replace_all re rep False cs)"
  by pat_completeness auto
termination
  by (relation "measure (\<lambda>(re, rep, b, s). length s)") auto

text \<open>
  \<open>new RegExp(pattern)\<close> for a pattern of the fragment: ordinary characters, \<open>.\<close>, \<open>^\<close>,
  \<open>$\<close> and the greedy quantifiers \<open>*\<close>, \<open>+\<close>, \<open>?\<close> after a character or \<open>.\<close>. A
  quantifier with nothing to repeat, a \<open>)\<close> with no group open, a \<open>(\<close> with no \<open>)\<close> after
  it and a \<open>[\<close> with no \<open>]\<close> after it are a \<open>SyntaxError\<close>, as in JavaScript. Other
  groups and classes, braces, alternation, escapes and lazy quantifiers are outside the
  fragment: the result is \<open>OutsideFragment\<close> when the pattern reaches one of them, and
  the pattern is then left to \<open>hostRegExp\<close>.
\<close>

definition isQuantifier :: "char \<Rightarrow> bool" where
  "isQuantifier c = (c = CHR ''*'' \<or> c = CHR ''+'' \<or> c = CHR ''?'')"

definition outsideFragment :: "char \<Rightarrow> bool" where
  "outsideFragment c = (c = CHR ''('' \<or> c = CHR '')'' \<or> c = CHR ''['' \<or> c = CHR '']''
     \<or> c = CHR ''{'' \<or> c = CHR ''}'' \<or> c = CHR ''|'' \<or> c = CHR 0x5C)"

definition quantify :: "char \<Rightarrow> atom \<Rightarrow> node" where
  "quantify q a = (if q = CHR ''*'' then Star a else if q = CHR ''+'' then Plus a else Opt a)"

datatype parsed = Parsed "node list" | Invalid | OutsideFragment

definition consNode :: "node \<Rightarrow> parsed \<Rightarrow> parsed" where
  "consNode n r = (case r of Parsed ns \<Rightarrow> Parsed (n # ns) | Invalid \<Rightarrow> Invalid
                   | OutsideFragment \<Rightarrow> OutsideFragment)"

fun parseRegExp :: "string \<Rightarrow> parsed" where
  "parseRegExp [] = Parsed []"
| "parseRegExp (c # cs) =
     (if isQuantifier c \<or> c = CHR '')'' then Invalid
      else if c = CHR ''('' \<and> CHR '')'' \<notin> set cs then Invalid
      else if c = CHR ''['' \<and> CHR '']'' \<notin> set cs then Invalid
      else if outsideFragment c then OutsideFragment
      else if c = CHR ''^'' then consNode Bol (parseRegExp cs)
      else if c = CHR ''$'' then consNode Eol (parseRegExp cs)
      else
        let a = (if c = CHR ''.'' then AnyChar else Lit c)
        in case cs of
             [] \<Rightarrow> Parsed [One a]
           | q # rest \<Rightarrow>
               if isQuantifier q then
                 (case rest of
                    [] \<Rightarrow> Parsed [quantify q a]
                  | q2 # rest2 \<Rightarrow>
                      if q2 = CHR ''?'' then OutsideFragment
                      else consNode (quantify q a) (parseRegExp rest))
               else consNode (One a) (parseRegExp cs))"

section \<open>Walking a documentation root\<close>

text \<open>\<open>stripDir\<close>. The pattern is the root, unescaped, after \<open>^\<close>.\<close>

definition stripDir :: "env \<Rightarrow> string \<Rightarrow> string \<Rightarrow> error + string" where
  "stripDir e f dir =
     (let dir' = (if endsWith dir ''/'' then dir else dir @ ''/'')
      in case parseRegExp (''^'' @ dir') of
           Invalid \<Rightarrow> Inl SyntaxError
         | Parsed re \<Rightarrow> Inr (replace_first re [] f)
         | OutsideFragment \<Rightarrow>
             (case hostRegExp e (''^'' @ dir') of
                Inl err \<Rightarrow> Inl err
              | Inr replaced \<Rightarrow> Inr (replaced f)))"

definition ITEM_KINDS :: "string list" where
  "ITEM_KINDS = [''module'', ''struct'', ''trait'', ''macro'', ''fn'', ''type'', ''enum'',
     ''keyword'', ''constant'', ''primitive'', ''traitalias'']"

text \<open>The field \<open>kind\<close> holds whatever the file name gives: the source casts it to
  \<open>ItemKind\<close> without a check.\<close>

record DocItem =
  kind :: string
  module :: "string option"
  name :: string
  docDir :: string

text \<open>The regular expressions of \<open>getDocItems\<close>: \<open>/\/$/\<close>, \<open>/\//g\<close> and
  \<open>/([^.]+)\.([^.]+)\.html$/\<close>.\<close>

definition trailingSlashRegExp :: "node list" where
  "trailingSlashRegExp = [One (Lit CHR ''/''), Eol]"

definition slashRegExp :: "node list" where
  "slashRegExp = [One (Lit CHR ''/'')]"

definition itemFileRegExp :: "node list" where
  "itemFileRegExp =
     [GroupOpen, Plus (NotLit CHR ''.''), GroupClose, One (Lit CHR ''.''),
      GroupOpen, Plus (NotLit CHR ''.''), GroupClose, One (Lit CHR ''.''),
      One (Lit CHR ''h''), One (Lit CHR ''t''), One (Lit CHR ''m''), One (Lit CHR ''l''), Eol]"

definition modulePath :: "string \<Rightarrow> string" where
  "modulePath d = replace_all slashRegExp ''::'' True (replace_first trailingSlashRegExp [] d)"

text \<open>
  The body of the loop of \<open>getDocItems\<close> for one entry of the walk: an exception
  (of \<open>stripDir\<close>), nothing (\<open>continue\<close>, or no match), or the item yielded.
\<close>

definition docItemOfEntry :: "env \<Rightarrow> string \<Rightarrow> WalkEntry \<Rightarrow> error + DocItem option" where
  "docItemOfEntry e dir entry =
     (if \<not> we_isFile entry then Inr None
      else case stripDir e (we_path entry) dir of
        Inl err \<Rightarrow> Inl err
      | Inr p \<Rightarrow>
          if startsWith p ''src/'' then Inr None
          else if we_name entry = ''index.html'' then
            (let m = basename (dirname p)
             in if m = ''.'' then Inr None
                else
                  let parentModuleDir = dirname (dirname p);
                      parentModule = (if parentModuleDir = ''.'' then None
                                      else Some (modulePath parentModuleDir))
                  in Inr (Some \<lparr>kind = ''module'', module = parentModule, name = m,
                                 docDir = dir\<rparr>))
          else
            (case RegExp_exec itemFileRegExp (we_name entry) of
               Some (before, matched, after, [k, n]) \<Rightarrow>
                 Inr (Some \<lparr>kind = k, module = Some (modulePath (dirname p)), name = n,
                            docDir = dir\<rparr>)
             | _ \<Rightarrow> Inr None))"

fun docItemsOfEntries :: "env \<Rightarrow> string \<Rightarrow> WalkEntry list \<Rightarrow> DocItem gen" where
  "docItemsOfEntries e dir [] = ([], None)"
| "docItemsOfEntries e dir (entry # entries) =
     (case docItemOfEntry e dir entry of
        Inl err \<Rightarrow> ([], Some err)
      | Inr None \<Rightarrow> docItemsOfEntries e dir entries
      | Inr (Some item) \<Rightarrow>
          (case docItemsOfEntries e dir entries of (items, r) \<Rightarrow> (item # items, r)))"

definition getDocItems :: "env \<Rightarrow> string \<Rightarrow> DocItem gen" where
  "getDocItems e dir =
     (case walk e dir of
        (entries, walkError) \<Rightarrow>
          (case docItemsOfEntries e dir entries of
             (items, Some err) \<Rightarrow> (items, Some err)
           | (items, None) \<Rightarrow> (items, walkError)))"

section \<open>The cache\<close>


definition objectPrototypeKeys :: "string list" where
  "objectPrototypeKeys = [''constructor'', ''__defineGetter__'', ''__defineSetter__'',
     ''hasOwnProperty'', ''__lookupGetter__'', ''__lookupSetter__'', ''isPrototypeOf'',
     ''propertyIsEnumerable'', ''toString'', ''valueOf'', ''__proto__'', ''toLocaleString'']"




section \<open>Presentation\<close>

record ActionData =
  a_kind :: string
  a_module :: "string option"
  a_name :: string
  url :: string

record Item =
  word :: string
  display :: string
  action :: ActionData

definition getDocItemFilePath :: "DocItem \<Rightarrow> string" where
  "getDocItemFilePath a =
     (let filePath = (case module a of
                        None \<Rightarrow> docDir a
                      | Some m \<Rightarrow> join (docDir a # split_colons [] m))
      in if kind a = ''module'' then join [filePath, name a, ''index.html'']
         else join [filePath, kind a @ ''.'' @ name a @ ''.html''])"

text \<open>\<open>reduce\<close> without an initial value starts from the first element.\<close>

definition kindWidth :: nat where
  "kindWidth = (case map length ITEM_KINDS of [] \<Rightarrow> 0 | w # ws \<Rightarrow> foldl max w ws)"

definition docItemToDduItem :: "DocItem \<Rightarrow> Item" where
  "docItemToDduItem a =
     (let modulePrefix = (case module a of Some m \<Rightarrow> m @ ''::'' | None \<Rightarrow> []);
          padding = replicate (nat (max 0 (int kindWidth - int (length (kind a))))) CHR '' ''
      in \<lparr>word = name a,
          display = kind a @ padding @ '' '' @ modulePrefix @ name a,
          action = \<lparr>a_kind = kind a, a_module = module a, a_name = name a,
                     url = ''file://'' @ getDocItemFilePath a\<rparr>\<rparr>)"

section \<open>Batching\<close>

text \<open>
  \<open>convertdocItems\<close>. The generator has one array, \<open>buf\<close>, and every batch it yields is
  that array: the source yields the object itself and empties it, with \<open>splice\<close>, when the
  generator is resumed. A batch in the model is the content of the array at the moment of
  the \<open>yield\<close>; the second component of the result is the content of the array when the
  generator has ended. An exception of the source ends the generator where it arrives.
\<close>

definition BUFFER_SIZE :: nat where
  "BUFFER_SIZE = 1024"

fun convertLoop :: "Item list \<Rightarrow> DocItem list \<Rightarrow> error option \<Rightarrow> Item list gen \<times> Item list" where
  "convertLoop buf [] r =
     (case r of
        Some err \<Rightarrow> (([], Some err), buf)
      | None \<Rightarrow> ((if length buf > 0 then [buf] else [], None), buf))"
| "convertLoop buf (a # as) r =
     (if length buf \<ge> BUFFER_SIZE then
        (case convertLoop [docItemToDduItem a] as r of
           ((bs, r'), final) \<Rightarrow> ((buf # bs, r'), final))
      else convertLoop (buf @ [docItemToDduItem a]) as r)"

definition convertdocItems :: "DocItem gen \<Rightarrow> Item list gen \<times> Item list" where
  "convertdocItems itr = (case itr of (items, r) \<Rightarrow> convertLoop [] items r)"

section \<open>Claims about the locator\<close>

lemma join_home_toolchains:
  "join [''/home/u'', ''.rustup/toolchains''] = ''/home/u/.rustup/toolchains''"
  by (simp add: join_def normalize_def normalizeString_def normalizeStep_def)

lemma join_stable_share:
  "join [''stable-x86_64-unknown-linux-gnu'', ''share/doc/rust/html/'']
     = ''stable-x86_64-unknown-linux-gnu/share/doc/rust/html/''"
  by (simp add: join_def normalize_def normalizeString_def normalizeStep_def)

lemma findStdDocDir_fallback:
  assumes "\<not> (\<exists>out. rustup e = CmdOutput True out)"
  shows "findStdDocDir e =
     (case HOME e of
        None \<Rightarrow> Inr None
      | Some homeDir \<Rightarrow>
          (case readDir e (join [homeDir, ''.rustup/toolchains'']) of
             Inl err \<Rightarrow> Inl err
           | Inr entries \<Rightarrow>
               (case (case find (\<lambda>entry. de_isDirectory entry
                                   \<and> startsWith (de_name entry) ''stable-'') entries of
                        Some entry \<Rightarrow> Some (de_name entry)
                      | None \<Rightarrow>
                          foldl (\<lambda>d entry.
                                   if de_isDirectory entry
                                      \<and> startsWith (de_name entry) ''nightly-''
                                   then Some (de_name entry) else d)
                                None entries) of
                  None \<Rightarrow> Inr None
                | Some d \<Rightarrow>
                    if d = [] then Inr (Some d)
                    else Inr (Some (join [d, ''share/doc/rust/html/''])))))"
proof -
  have "(case rustup e of
           CmdThrows _ \<Rightarrow> None
         | CmdOutput success stdout \<Rightarrow>
             if success then Some (dirname (trim stdout)) else None) = None"
    using assms by (cases "rustup e") auto
  then show ?thesis
    unfolding findStdDocDir_def Let_def by (simp only: option.case)
qed

text \<open>The failure of the command is absorbed: an exception of \<open>cmd.output()\<close> and an
  unsuccessful exit give the same result. With the command succeeding, or \<open>HOME\<close> unset, or
  the listing of the toolchains directory succeeding, \<open>findDocDirs\<close> returns a list.\<close>

lemma findStdDocDir_command_failure:
  "findStdDocDir (e\<lparr>rustup := CmdThrows err\<rparr>) = findStdDocDir (e\<lparr>rustup := CmdOutput False out\<rparr>)"
proof -
  have 1: "\<not> (\<exists>out'. rustup (e\<lparr>rustup := CmdThrows err\<rparr>) = CmdOutput True out')" by simp
  have 2: "\<not> (\<exists>out'. rustup (e\<lparr>rustup := CmdOutput False out\<rparr>) = CmdOutput True out')" by simp
  show ?thesis
    unfolding findStdDocDir_fallback [OF 1] findStdDocDir_fallback [OF 2]
    by (cases "HOME e") simp_all
qed

lemma findDocDirs_returns:
  assumes "rustup e = CmdOutput True out \<or> HOME e = None
           \<or> (\<exists>h entries. HOME e = Some h
                  \<and> readDir e (join [h, ''.rustup/toolchains'']) = Inr entries)"
  shows "\<exists>docs. findDocDirs e p = Inr docs"
proof -
  have "\<exists>d. findStdDocDir e = Inr d"
  proof (cases "\<exists>out. rustup e = CmdOutput True out")
    case True
    then obtain out' where "rustup e = CmdOutput True out'" by blast
    then show ?thesis by (simp add: findStdDocDir_def)
  next
    case False
    with assms have "HOME e = None
           \<or> (\<exists>h entries. HOME e = Some h
                  \<and> readDir e (join [h, ''.rustup/toolchains'']) = Inr entries)"
      by blast
    then show ?thesis
    proof
      assume "HOME e = None"
      then show ?thesis by (simp add: findStdDocDir_fallback [OF False])
    next
      assume "\<exists>h entries. HOME e = Some h
                  \<and> readDir e (join [h, ''.rustup/toolchains'']) = Inr entries"
      then obtain h entries where "HOME e = Some h"
        "readDir e (join [h, ''.rustup/toolchains'']) = Inr entries" by blast
      then show ?thesis
        by (simp add: findStdDocDir_fallback [OF False] split: option.split)
    qed
  qed
  then obtain d where "findStdDocDir e = Inr d" by blast
  then show ?thesis
    by (simp add: findDocDirs_def Let_def split: option.split)
qed

text \<open>
  An environment in which \<open>rustup\<close> cannot be run, \<open>HOME\<close> is set and
  \<open>$HOME/.rustup/toolchains\<close> does not exist.
\<close>

definition env_no_toolchains :: env where
  "env_no_toolchains =
     \<lparr>rustup = CmdThrows CommandError, HOME = Some ''/home/u'',
      readDir = (\<lambda>_. Inl NotFound), stat = (\<lambda>_. False),
      walk = (\<lambda>_. ([], None)), cwd = ''/home/u/proj'',
      hostRegExp = (\<lambda>_. Inl SyntaxError)\<rparr>"

text \<open>
  C1. The claim: \<open>findDocDirs\<close> never raises; a failure of the command and a failure of
  the file system while the toolchain directory is searched both count as "not found".
  The code catches the first only. With \<open>rustup\<close> missing, \<open>HOME\<close> set and the
  toolchains directory absent, the exception of \<open>Deno.readDir\<close> leaves \<open>findStdDocDir\<close>
  and \<open>findDocDirs\<close>, whatever the starting path.
\<close>

theorem findDocDirs_raises_when_toolchains_absent:
  "findDocDirs env_no_toolchains p = Inl NotFound"
  by (simp add: findDocDirs_def findStdDocDir_def env_no_toolchains_def)

text \<open>
  An environment in which \<open>rustup\<close> exits unsuccessfully and the toolchains directory
  of \<open>/home/u\<close> holds one stable toolchain.
\<close>

definition env_stable_toolchain :: env where
  "env_stable_toolchain =
     \<lparr>rustup = CmdOutput False [], HOME = Some ''/home/u'',
      readDir = (\<lambda>d. if d = ''/home/u/.rustup/toolchains''
                     then Inr [\<lparr>de_name = ''stable-x86_64-unknown-linux-gnu'',
                                de_isDirectory = True\<rparr>]
                     else Inl NotFound),
      stat = (\<lambda>_. False), walk = (\<lambda>_. ([], None)), cwd = ''/home/u/proj'',
      hostRegExp = (\<lambda>_. Inl SyntaxError)\<rparr>"

text \<open>
  C2. The claim: with a toolchain directory \<open>D\<close> found under \<open>$HOME/.rustup/toolchains\<close>,
  \<open>findStdDocDir\<close> returns \<open>$HOME/.rustup/toolchains/D/share/doc/rust/html\<close>. The code
  joins the subpath to the bare entry name: the result is the relative path
  \<open>D/share/doc/rust/html/\<close>, which does not name the toolchain's directory.
\<close>

theorem findStdDocDir_returns_relative_path:
  "findStdDocDir env_stable_toolchain
     = Inr (Some ''stable-x86_64-unknown-linux-gnu/share/doc/rust/html/'')"
  by (simp add: findStdDocDir_def env_stable_toolchain_def join_home_toolchains
      join_stable_share startsWith_def)

section \<open>Claims about batching\<close>

lemma BUFFER_SIZE_pos: "0 < BUFFER_SIZE"
  by (simp add: BUFFER_SIZE_def)

definition batchSizes :: "nat \<Rightarrow> nat list" where
  "batchSizes n = replicate (n div BUFFER_SIZE) BUFFER_SIZE
                    @ (if n mod BUFFER_SIZE = 0 then [] else [n mod BUFFER_SIZE])"

lemma batchSizes_add: "batchSizes (BUFFER_SIZE + n) = BUFFER_SIZE # batchSizes n"
  using BUFFER_SIZE_pos by (simp add: batchSizes_def div_add_self1)

lemma batchSizes_small: "0 < n \<Longrightarrow> n \<le> BUFFER_SIZE \<Longrightarrow> batchSizes n = [n]"
  by (cases "n = BUFFER_SIZE") (simp_all add: batchSizes_def)

lemma batchSizes_0: "batchSizes 0 = []"
  by (simp add: batchSizes_def)

lemma convertLoop_None: "snd (fst (convertLoop buf xs None)) = None"
  by (induction xs arbitrary: buf) (simp_all add: case_prod_beta)

lemma convertLoop_concat:
  "concat (fst (fst (convertLoop buf xs None))) = buf @ map docItemToDduItem xs"
  by (induction xs arbitrary: buf) (simp_all add: case_prod_beta)

lemma convertLoop_some_batch:
  "buf \<noteq> [] \<Longrightarrow> fst (fst (convertLoop buf xs None)) \<noteq> []"
  by (induction xs arbitrary: buf) (simp_all add: case_prod_beta)

text \<open>When the generator has ended, the array holds the last batch.\<close>

lemma convertLoop_final:
  "snd (convertLoop buf xs None)
     = (if fst (fst (convertLoop buf xs None)) = [] then buf
        else last (fst (fst (convertLoop buf xs None))))"
proof (induction xs arbitrary: buf)
  case Nil
  then show ?case by simp
next
  case (Cons a as)
  show ?case
  proof (cases "BUFFER_SIZE \<le> length buf")
    case True
    have "fst (fst (convertLoop [docItemToDduItem a] as None)) \<noteq> []"
      by (rule convertLoop_some_batch) simp
    with Cons.IH [of "[docItemToDduItem a]"] True show ?thesis
      by (simp add: case_prod_beta)
  next
    case False
    have "fst (fst (convertLoop (buf @ [docItemToDduItem a]) as None)) \<noteq> []"
      by (rule convertLoop_some_batch) simp
    with Cons.IH [of "buf @ [docItemToDduItem a]"] False show ?thesis
      by simp
  qed
qed

text \<open>With \<open>b \<le> BUFFER_SIZE\<close> entries in the buffer and the items \<open>xs\<close> to come, the
  batches are those of \<open>b + length xs\<close> entries.\<close>

lemma convertLoop_sizes:
  "length buf \<le> BUFFER_SIZE \<Longrightarrow>
   map length (fst (fst (convertLoop buf xs None))) = batchSizes (length buf + length xs)"
proof (induction xs arbitrary: buf)
  case Nil
  then show ?case by (cases "buf = []") (simp_all add: batchSizes_0 batchSizes_small)
next
  case (Cons a as)
  show ?case
  proof (cases "BUFFER_SIZE \<le> length buf")
    case True
    with Cons.prems have b: "length buf = BUFFER_SIZE" by simp
    have "length [docItemToDduItem a] \<le> BUFFER_SIZE" using BUFFER_SIZE_pos by simp
    from Cons.IH [OF this]
    have "map length (fst (fst (convertLoop [docItemToDduItem a] as None)))
            = batchSizes (Suc (length as))"
      by simp
    with True b batchSizes_add [of "Suc (length as)"] show ?thesis
      by (simp add: case_prod_beta)
  next
    case False
    then have "length (buf @ [docItemToDduItem a]) \<le> BUFFER_SIZE" by simp
    from Cons.IH [OF this] False show ?thesis by simp
  qed
qed

text \<open>
  C7. For every finite sequence of \<open>n\<close> items that ends without an exception,
  \<open>convertdocItems\<close> yields \<open>n div 1024\<close> batches of 1024 entries, then one batch of
  \<open>n mod 1024\<close> entries when that is not zero, and ends; the batches, in order, hold the
  converted items. So 2048 items give two batches of 1024, 1025 items a batch of 1024 and
  a batch of 1, and no item gives no batch. The sizes are those at the moment of each
  \<open>yield\<close>: all batches are one array, which holds the last batch at the end.
\<close>

theorem convertdocItems_batch_sizes:
  "map length (fst (fst (convertdocItems (xs, None))))
     = replicate (length xs div 1024) 1024
       @ (if length xs mod 1024 = 0 then [] else [length xs mod 1024])
   \<and> snd (fst (convertdocItems (xs, None))) = None
   \<and> concat (fst (fst (convertdocItems (xs, None)))) = map docItemToDduItem xs
   \<and> snd (convertdocItems (xs, None))
       = (if xs = [] then [] else last (fst (fst (convertdocItems (xs, None)))))"
proof -
  have sizes: "map length (fst (fst (convertLoop [] xs None))) = batchSizes (length xs)"
    using convertLoop_sizes [of "[]" xs] by simp
  have "(fst (fst (convertLoop [] xs None)) = []) = (xs = [])"
    using convertLoop_concat [of "[]" xs] by (cases xs) auto
  with convertLoop_final [of "[]" xs]
  have final: "snd (convertLoop [] xs None)
      = (if xs = [] then [] else last (fst (fst (convertLoop [] xs None))))"
    by simp
  from sizes final show ?thesis
    by (simp add: convertdocItems_def convertLoop_None convertLoop_concat batchSizes_def
        BUFFER_SIZE_def)
qed

section \<open>Claims about the presentation\<close>

lemma kindWidth_10: "kindWidth = 10"
  by (simp add: kindWidth_def ITEM_KINDS_def)

text \<open>The display string as the claim words it: the module prefix only for a module that
  is neither \<open>null\<close> nor empty.\<close>

definition claimedDisplay :: "DocItem \<Rightarrow> string" where
  "claimedDisplay a =
     kind a @ replicate (10 - length (kind a)) CHR '' '' @ '' ''
     @ (case module a of
          None \<Rightarrow> []
        | Some m \<Rightarrow> if m = [] then [] else m @ ''::'')
     @ name a"

text \<open>
  C6, as stated, fails for an item whose module is the empty string: the code tests the
  module against \<open>null\<close> only, and the display is \<open>struct     ::Foo\<close>.
\<close>

theorem display_empty_module_counterexample:
  "display (docItemToDduItem \<lparr>kind = ''struct'', module = Some [], name = ''Foo'',
                               docDir = ''/doc/''\<rparr>) = ''struct     ::Foo''
   \<and> display (docItemToDduItem \<lparr>kind = ''struct'', module = Some [], name = ''Foo'',
                               docDir = ''/doc/''\<rparr>)
     \<noteq> claimedDisplay \<lparr>kind = ''struct'', module = Some [], name = ''Foo'',
                         docDir = ''/doc/''\<rparr>"
  by (simp add: docItemToDduItem_def claimedDisplay_def kindWidth_10 eval_nat_numeral)

text \<open>
  C6, amended. For every item, the display string is the kind tag, padded on the right
  with spaces to the width of the longest known kind tag (10, the length of
  \<open>traitalias\<close>; a longer tag is not padded), one space, the module followed by \<open>::\<close>
  whenever the module is not \<open>null\<close> (also when it is empty), and the name.
\<close>

theorem docItemToDduItem_display:
  "display (docItemToDduItem a)
     = kind a @ replicate (10 - length (kind a)) CHR '' '' @ '' ''
       @ (case module a of None \<Rightarrow> [] | Some m \<Rightarrow> m @ ''::'') @ name a
   \<and> length (kind a @ replicate (10 - length (kind a)) CHR '' '') = max 10 (length (kind a))
   \<and> length ''traitalias'' = 10
   \<and> word (docItemToDduItem a) = name a"
proof -
  have "nat (max 0 (int kindWidth - int (length (kind a)))) = 10 - length (kind a)"
    by (simp add: kindWidth_10)
  then show ?thesis
    by (simp add: docItemToDduItem_def)
qed

section \<open>The upward search\<close>

text \<open>
  The directories an upward search from \<open>p\<close> can look at: \<open>p\<close>, then its parents by
  \<open>dirname\<close>, up to but not including \<open>/\<close>, \<open>.\<close> or the empty path.
\<close>

function ancestors :: "string \<Rightarrow> string list" where
  "ancestors p =
     (if p = ''/'' \<or> p = ''.'' \<or> p = [] then [] else p # ancestors (dirname p))"
  by pat_completeness auto
termination
proof (relation "measure (\<lambda>p. if p = ''/'' \<or> p = ''.'' \<or> p = [] then 0 else Suc (length p))")
  show "wf (measure (\<lambda>p. if p = ''/'' \<or> p = ''.'' \<or> p = [] then 0 else Suc (length p)))"
    by (rule wf_measure)
next
  fix p :: string
  assume a: "\<not> (p = ''/'' \<or> p = ''.'' \<or> p = [])"
  then have "p \<noteq> []" by blast
  from dirname_shorter [OF this]
  have "(if dirname p = ''/'' \<or> dirname p = ''.'' \<or> dirname p = [] then 0
         else Suc (length (dirname p))) < Suc (length p)"
    by (cases "dirname p = ''/'' \<or> dirname p = ''.'' \<or> dirname p = []") auto
  with a show "(dirname p, p)
          \<in> measure (\<lambda>p. if p = ''/'' \<or> p = ''.'' \<or> p = [] then 0 else Suc (length p))"
    unfolding in_measure by (simp only: if_False)
qed

declare ancestors.simps [simp del]

definition hasMarker :: "env \<Rightarrow> string \<Rightarrow> bool" where
  "hasMarker e d = fsExists e (join [d, ''Cargo.toml''])"

text \<open>The directories of a list that a search looks at: those before the first one with
  the marker, and that one.\<close>

fun examined :: "env \<Rightarrow> string list \<Rightarrow> string list" where
  "examined e [] = []"
| "examined e (d # ds) = (if hasMarker e d then [d] else d # examined e ds)"

lemma findCargoProjectDir_ancestors:
  "findCargoProjectDir e p =
     (map_option (resolve (cwd e)) (find (hasMarker e) (ancestors p)),
      map (\<lambda>d. join [d, ''Cargo.toml'']) (examined e (ancestors p)))"
proof (induction e p rule: findCargoProjectDir.induct)
  case (1 e p)
  show ?case
  proof (cases "p = ''/'' \<or> p = ''.'' \<or> p = []")
    case True
    then show ?thesis
      by (subst findCargoProjectDir.simps, subst (1 2) ancestors.simps) (simp only: if_True, simp)
  next
    case False
    note nt = this
    show ?thesis
    proof (cases "fsExists e (join [p, ''Cargo.toml''])")
      case True
      with nt show ?thesis
        by (subst findCargoProjectDir.simps, subst (1 2) ancestors.simps)
           (simp only: if_False if_True Let_def, simp add: hasMarker_def)
    next
      case False
      from "1.IH" [OF nt refl False]
      have ih: "findCargoProjectDir e (dirname p) =
        (map_option (resolve (cwd e)) (find (hasMarker e) (ancestors (dirname p))),
         map (\<lambda>d. join [d, ''Cargo.toml'']) (examined e (ancestors (dirname p))))" .
      from nt False show ?thesis
        by (subst findCargoProjectDir.simps, subst (1 2) ancestors.simps)
           (simp only: if_False Let_def ih, simp add: hasMarker_def)
    qed
  qed
qed


text \<open>A file system whose only marker file is \<open>/a/Cargo.toml\<close>.\<close>

definition env_marker_at_a :: env where
  "env_marker_at_a =
     \<lparr>rustup = CmdThrows CommandError, HOME = None, readDir = (\<lambda>_. Inl NotFound),
      stat = (\<lambda>p. p = ''/a/Cargo.toml''), walk = (\<lambda>_. ([], None)), cwd = ''/a/b/c'',
      hostRegExp = (\<lambda>_. Inl SyntaxError)\<rparr>"


section \<open>Claims about the cache\<close>







text \<open>An environment whose standard library documentation, \<open>/doc\<close>, holds one file.\<close>

definition env_doc :: env where
  "env_doc =
     \<lparr>rustup = CmdOutput True ''/doc/index.html'', HOME = None,
      readDir = (\<lambda>_. Inl NotFound), stat = (\<lambda>p. p = ''/doc''),
      walk = (\<lambda>d. if d = ''/doc''
                  then ([\<lparr>we_path = ''/doc/struct.Foo.html'', we_name = ''struct.Foo.html'',
                            we_isFile = True\<rparr>], None)
                  else ([], None)),
      cwd = ''/work'', hostRegExp = (\<lambda>_. Inl SyntaxError)\<rparr>"

lemma findDocDirs_env_doc: "findDocDirs env_doc ''/'' = Inr [''/doc'']"
  by code_simp

lemma getDocItems_env_doc:
  "getDocItems env_doc ''/doc''
     = ([\<lparr>kind = ''struct'', module = Some ''.'', name = ''Foo'', docDir = ''/doc''\<rparr>], None)"
  by code_simp

lemma not_prototype_key_doc: "''/doc'' \<notin> set objectPrototypeKeys"
  by code_simp







section \<open>Claims about the walker\<close>

subsection \<open>Stripping the root\<close>

text \<open>The characters with a meaning of their own in a pattern.\<close>

definition isMetaChar :: "char \<Rightarrow> bool" where
  "isMetaChar c = (isQuantifier c \<or> outsideFragment c \<or> c = CHR ''^'' \<or> c = CHR ''$''
     \<or> c = CHR ''.'')"

definition literalNode :: "char \<Rightarrow> node" where
  "literalNode c = One (if c = CHR ''.'' then AnyChar else Lit c)"

text \<open>A pattern with no quantifier, assertion or character outside the fragment is the
  sequence of its characters, \<open>.\<close> standing for any character.\<close>

definition isFragmentChar :: "char \<Rightarrow> bool" where
  "isFragmentChar c = (\<not> isQuantifier c \<and> \<not> outsideFragment c \<and> c \<noteq> CHR ''^'' \<and> c \<noteq> CHR ''$'')"

lemma parseRegExp_literal:
  "list_all isFragmentChar d \<Longrightarrow> parseRegExp d = Parsed (map literalNode d)"
proof (induction d)
  case Nil
  then show ?case by simp
next
  case (Cons c cs)
  then have c: "isFragmentChar c" and cs: "list_all isFragmentChar cs" by simp_all
  from Cons.IH [OF cs] have ih: "parseRegExp cs = Parsed (map literalNode cs)" .
  show ?case
  proof (cases cs)
    case Nil
    with c show ?thesis by (simp add: isFragmentChar_def outsideFragment_def literalNode_def)
  next
    case (Cons q rest)
    with cs have "\<not> isQuantifier q" by (simp add: isFragmentChar_def)
    with c ih Cons show ?thesis
      by (simp add: isFragmentChar_def outsideFragment_def literalNode_def consNode_def)
  qed
qed

lemma parseRegExp_anchored:
  "list_all isFragmentChar d \<Longrightarrow> parseRegExp (''^'' @ d) = Parsed (Bol # map literalNode d)"
  by (simp add: parseRegExp_literal isQuantifier_def outsideFragment_def consNode_def)

lemma rmatch_literal_prefix:
  "rmatch (map literalNode d @ r) b (d @ s) mk caps = rmatch r (b \<and> d = []) s mk caps"
  by (induction d arbitrary: b) (simp_all add: literalNode_def)

lemma rmatch_plain:
  "list_all (\<lambda>c. \<not> isMetaChar c) d \<Longrightarrow>
   rmatch (map literalNode d) b f mk caps
     = (if startsWith f d then Some (drop (length d) f, caps) else None)"
proof (induction d arbitrary: f b)
  case Nil
  then show ?case by (simp add: startsWith_def)
next
  case (Cons c cs)
  then have c: "c \<noteq> CHR ''.''" and cs: "list_all (\<lambda>c. \<not> isMetaChar c) cs"
    by (simp_all add: isMetaChar_def)
  show ?case
  proof (cases f)
    case Nil
    then show ?thesis by (simp add: literalNode_def startsWith_def)
  next
    case (Cons x xs)
    with c Cons.IH [OF cs, of False xs] show ?thesis
      by (auto simp: literalNode_def startsWith_def)
  qed
qed

lemma rexec_from_Bol_later: "rexec_from (Bol # re) False pre s = None"
  by (induction s arbitrary: pre) simp_all

lemma RegExp_exec_Bol:
  "RegExp_exec (Bol # re) f =
     (case rmatch re True f f [] of
        Some (rest, caps) \<Rightarrow> Some ([], take (length f - length rest) f, rest, caps)
      | None \<Rightarrow> None)"
  by (cases f) (simp_all add: RegExp_exec_def rexec_from_Bol_later split: option.splits)

lemma plain_is_fragment:
  "list_all (\<lambda>c. \<not> isMetaChar c) d \<Longrightarrow> list_all isFragmentChar d"
  by (induction d) (simp_all add: isMetaChar_def isFragmentChar_def)

lemma stripDir_plain:
  assumes "list_all (\<lambda>c. \<not> isMetaChar c) dir"
  shows "stripDir e f dir =
     Inr (let dir' = (if endsWith dir ''/'' then dir else dir @ ''/'')
          in if startsWith f dir' then drop (length dir') f else f)"
proof -
  define dir' where "dir' = (if endsWith dir ''/'' then dir else dir @ ''/'')"
  have plain: "list_all (\<lambda>c. \<not> isMetaChar c) dir'"
    using assms by (simp add: dir'_def isMetaChar_def isQuantifier_def outsideFragment_def)
  have "parseRegExp (''^'' @ dir') = Parsed (Bol # map literalNode dir')"
    using plain by (intro parseRegExp_anchored plain_is_fragment)
  moreover have "replace_first (Bol # map literalNode dir') [] f
      = (if startsWith f dir' then drop (length dir') f else f)"
    by (simp add: replace_first_def RegExp_exec_Bol rmatch_plain [OF plain])
  ultimately show ?thesis
    by (simp add: stripDir_def dir'_def [symmetric] Let_def del: append.simps)
qed


lemma stripDir_prefix:
  assumes "list_all isFragmentChar dir"
  shows "stripDir e ((if endsWith dir ''/'' then dir else dir @ ''/'') @ rest) dir = Inr rest"
proof -
  define dir' where "dir' = (if endsWith dir ''/'' then dir else dir @ ''/'')"
  have frag: "list_all isFragmentChar dir'"
    using assms by (simp add: dir'_def isFragmentChar_def isQuantifier_def outsideFragment_def)
  have "parseRegExp (''^'' @ dir') = Parsed (Bol # map literalNode dir')"
    using frag by (rule parseRegExp_anchored)
  moreover have "rmatch (map literalNode dir') True (dir' @ rest) (dir' @ rest) []
      = Some (rest, [])"
    using rmatch_literal_prefix [of dir' "[]" True rest "dir' @ rest" "[]"] by simp
  then have "replace_first (Bol # map literalNode dir') [] (dir' @ rest) = rest"
    by (simp add: replace_first_def RegExp_exec_Bol)
  ultimately show ?thesis
    by (simp add: stripDir_def dir'_def [symmetric] Let_def del: append.simps)
qed

lemma stripDir_plus_unstripped:
  "stripDir e ''/a+b/x/struct.Foo.html'' ''/a+b'' = Inr ''/a+b/x/struct.Foo.html''"
proof -
  have "parseRegExp ''^/a+b/''
      = Parsed [Bol, One (Lit CHR ''/''), Plus (Lit CHR ''a''), One (Lit CHR ''b''),
                One (Lit CHR ''/'')]"
    by code_simp
  moreover have "replace_first [Bol, One (Lit CHR ''/''), Plus (Lit CHR ''a''),
      One (Lit CHR ''b''), One (Lit CHR ''/'')] [] ''/a+b/x/struct.Foo.html''
      = ''/a+b/x/struct.Foo.html''"
    by code_simp
  moreover have "endsWith ''/a+b'' ''/'' = False" by code_simp
  ultimately show ?thesis by (simp add: stripDir_def)
qed

lemma stripDir_plus_plus_throws:
  "stripDir e ''/c++/x/struct.Foo.html'' ''/c++'' = Inl SyntaxError"
proof -
  have "parseRegExp ''^/c++/'' = Invalid" by code_simp
  moreover have "endsWith ''/c++'' ''/'' = False" by code_simp
  ultimately show ?thesis by (simp add: stripDir_def)
qed

lemma stripDir_paren_throws:
  "stripDir e ''/a(b/x/struct.Foo.html'' ''/a(b'' = Inl SyntaxError"
proof -
  have "parseRegExp ''^/a(b/'' = Invalid" by code_simp
  moreover have "endsWith ''/a(b'' ''/'' = False" by code_simp
  ultimately show ?thesis by (simp add: stripDir_def)
qed

text \<open>
  C10. For every root whose text has no regular expression metacharacter, \<open>stripDir\<close>
  returns \<open>f\<close> without the leading root (a slash added to the root when it does not end
  in one), and \<open>f\<close> itself when \<open>f\<close> does not begin with it. The condition is needed:
  under the root \<open>/a+b\<close> the path \<open>/a+b/x/struct.Foo.html\<close> is returned unstripped, and
  for the roots \<open>/c++\<close> and \<open>/a(b\<close> the construction of the regular expression throws.
\<close>

theorem stripDir_without_metacharacters:
  assumes "list_all (\<lambda>c. \<not> isMetaChar c) dir"
  shows "stripDir e f dir =
           Inr (let dir' = (if endsWith dir ''/'' then dir else dir @ ''/'')
                in if startsWith f dir' then drop (length dir') f else f)
         \<and> stripDir e ''/a+b/x/struct.Foo.html'' ''/a+b'' = Inr ''/a+b/x/struct.Foo.html''
         \<and> stripDir e ''/c++/x/struct.Foo.html'' ''/c++'' = Inl SyntaxError
         \<and> stripDir e ''/a(b/x/struct.Foo.html'' ''/a(b'' = Inl SyntaxError"
  using stripDir_plain [OF assms] stripDir_plus_unstripped stripDir_plus_plus_throws
    stripDir_paren_throws
  by blast

lemma plain_doc: "list_all (\<lambda>c. \<not> isMetaChar c) ''/doc''"
  by code_simp

theorem stripDir_without_metacharacters_witness:
  "list_all (\<lambda>c. \<not> isMetaChar c) ''/doc''
   \<and> stripDir env_doc ''/doc/std/struct.Foo.html'' ''/doc'' = Inr ''std/struct.Foo.html''"
proof -
  have "(let dir' = (if endsWith ''/doc'' ''/'' then ''/doc'' else ''/doc'' @ ''/'')
         in if startsWith ''/doc/std/struct.Foo.html'' dir'
            then drop (length dir') ''/doc/std/struct.Foo.html''
            else ''/doc/std/struct.Foo.html'') = ''std/struct.Foo.html''"
    by code_simp
  with stripDir_without_metacharacters [OF plain_doc, of env_doc "''/doc/std/struct.Foo.html''"]
    plain_doc
  show ?thesis by simp
qed

subsection \<open>The pattern of item files\<close>

lemma rmatch_literal_end:
  "rmatch (map (\<lambda>c. One (Lit c)) w @ [Eol]) b s mk caps
     = (if s = w then Some ([], caps) else None)"
proof (induction w arbitrary: s b)
  case Nil
  then show ?case by simp
next
  case (Cons c w)
  then show ?case by (cases s) auto
qed

lemma rmatch_html_end:
  "rmatch [One (Lit CHR ''h''), One (Lit CHR ''t''), One (Lit CHR ''m''), One (Lit CHR ''l''), Eol]
          b s mk caps
     = (if s = ''html'' then Some ([], caps) else None)"
  using rmatch_literal_end [of "''html''" b s mk caps] by simp

text \<open>A greedy run of characters other than the dot, before a dot of the pattern: the run
  ends at the first dot of the input, and giving characters back never helps.\<close>

lemma rmatch_star_notdot:
  "CHR ''.'' \<notin> set a \<Longrightarrow>
   rmatch (Star (NotLit CHR ''.'') # GroupClose # One (Lit CHR ''.'') # r) b (a @ CHR ''.'' # t) mk caps
     = rmatch r False t mk (caps @ [take (length mk - Suc (length t)) mk])"
  by (induction a arbitrary: b) (auto split: option.splits)

lemma rmatch_star_notdot_end:
  "CHR ''.'' \<notin> set a \<Longrightarrow>
   rmatch (Star (NotLit CHR ''.'') # GroupClose # One (Lit CHR ''.'') # r) b a mk caps = None"
  by (induction a arbitrary: b) (auto split: option.splits)

lemma rmatch_group_notdot:
  "CHR ''.'' \<notin> set a \<Longrightarrow>
   rmatch (GroupOpen # Plus (NotLit CHR ''.'') # GroupClose # One (Lit CHR ''.'') # r) b
          (a @ CHR ''.'' # t) mk caps
     = (if a = [] then None else rmatch r False t (a @ CHR ''.'' # t) (caps @ [a]))"
proof (cases a)
  case Nil
  then show ?thesis by simp
next
  case (Cons c cs)
  assume "CHR ''.'' \<notin> set a"
  with Cons have c: "c \<noteq> CHR ''.''" and cs: "CHR ''.'' \<notin> set cs" by auto
  from rmatch_star_notdot [OF cs, of r False t "a @ CHR ''.'' # t" caps] Cons c
  show ?thesis by simp
qed

lemma rmatch_group_notdot_end:
  "CHR ''.'' \<notin> set a \<Longrightarrow>
   rmatch (GroupOpen # Plus (NotLit CHR ''.'') # GroupClose # One (Lit CHR ''.'') # r) b a mk caps
     = None"
proof (cases a)
  case Nil
  then show ?thesis by simp
next
  case (Cons c cs)
  assume "CHR ''.'' \<notin> set a"
  with Cons have c: "c \<noteq> CHR ''.''" and cs: "CHR ''.'' \<notin> set cs" by auto
  from rmatch_star_notdot_end [OF cs, of r False a caps] Cons c
  show ?thesis by simp
qed


lemma intercalate_Cons:
  "intercalate sep (x # xs) = (if xs = [] then x else x @ sep @ intercalate sep xs)"
  by (cases xs) simp_all

lemma dot_not_html: "h @ CHR ''.'' # t \<noteq> ''html''"
proof
  assume "h @ CHR ''.'' # t = ''html''"
  then have "CHR ''.'' \<in> set ''html''" by (metis in_set_conv_decomp)
  then show False by simp
qed

text \<open>The pattern matches at a position exactly when what is left of the input is
  \<open>A.B.html\<close> with \<open>A\<close> and \<open>B\<close> not empty and free of dots. The input is given by its
  segments between dots.\<close>

lemma rmatch_itemFileRegExp:
  assumes "list_all (\<lambda>s. CHR ''.'' \<notin> set s) (x # segs)"
  shows "rmatch itemFileRegExp b (intercalate ''.'' (x # segs)) mk []
     = (case segs of
          [n, h] \<Rightarrow> if x \<noteq> [] \<and> n \<noteq> [] \<and> h = ''html'' then Some ([], [x, n]) else None
        | _ \<Rightarrow> None)"
proof (cases segs)
  case Nil
  with assms show ?thesis
    by (simp add: itemFileRegExp_def rmatch_group_notdot_end del: rmatch.simps)
next
  case s1: (Cons n segs1)
  with assms have x: "CHR ''.'' \<notin> set x" and n: "CHR ''.'' \<notin> set n" by simp_all
  have first: "rmatch itemFileRegExp b (intercalate ''.'' (x # segs)) mk []
      = (if x = [] then None
         else rmatch [GroupOpen, Plus (NotLit CHR ''.''), GroupClose, One (Lit CHR ''.''),
                      One (Lit CHR ''h''), One (Lit CHR ''t''), One (Lit CHR ''m''),
                      One (Lit CHR ''l''), Eol]
                False (intercalate ''.'' (n # segs1))
                (x @ CHR ''.'' # intercalate ''.'' (n # segs1)) [x])"
    using rmatch_group_notdot [OF x, of _ b "intercalate ''.'' (n # segs1)" mk "[]"] s1
    by (simp add: itemFileRegExp_def intercalate_Cons del: rmatch.simps)
  show ?thesis
  proof (cases segs1)
    case Nil
    with first s1 n show ?thesis
      by (simp add: rmatch_group_notdot_end del: rmatch.simps)
  next
    case s2: (Cons h segs2)
    have second: "rmatch [GroupOpen, Plus (NotLit CHR ''.''), GroupClose, One (Lit CHR ''.''),
                      One (Lit CHR ''h''), One (Lit CHR ''t''), One (Lit CHR ''m''),
                      One (Lit CHR ''l''), Eol]
                False (intercalate ''.'' (n # segs1)) mk2 [x]
        = (if n = [] then None
           else if intercalate ''.'' (h # segs2) = ''html'' then Some ([], [x, n]) else None)"
      for mk2
      using rmatch_group_notdot [OF n, of _ False "intercalate ''.'' (h # segs2)" mk2 "[x]"] s2
      by (simp add: intercalate_Cons rmatch_html_end del: rmatch.simps)
    have third: "rmatch itemFileRegExp b (intercalate ''.'' (x # segs)) mk []
        = (if x = [] \<or> n = [] then None
           else if intercalate ''.'' (h # segs2) = ''html'' then Some ([], [x, n]) else None)"
    proof (cases "x = []")
      case True
      show ?thesis unfolding first using True by (simp del: rmatch.simps)
    next
      case False
      show ?thesis unfolding first second using False by (simp del: rmatch.simps)
    qed
    show ?thesis
    proof (cases segs2)
      case Nil
      with third s1 s2 show ?thesis by (simp del: rmatch.simps)
    next
      case (Cons w segs3)
      then have "intercalate ''.'' (h # segs2) \<noteq> ''html''"
        using dot_not_html [of h] by (simp add: intercalate_Cons)
      with third s1 s2 Cons show ?thesis by (simp del: rmatch.simps)
    qed
  qed
qed

text \<open>What the search finds in a file name given by its segments between dots: the two
  segments before a last segment \<open>html\<close>, when neither is empty.\<close>

fun itemParts :: "string list \<Rightarrow> (string \<times> string) option" where
  "itemParts [a, n, h] = (if a \<noteq> [] \<and> n \<noteq> [] \<and> h = ''html'' then Some (a, n) else None)"
| "itemParts (a # n # h # w # rest) = itemParts (n # h # w # rest)"
| "itemParts segs = None"

lemma rexec_from_hit:
  assumes "CHR ''.'' \<notin> set x" "CHR ''.'' \<notin> set n" "x \<noteq> []" "n \<noteq> []"
  shows "rexec_from itemFileRegExp b pre (intercalate ''.'' [x, n, ''html''])
     = Some (rev pre, intercalate ''.'' [x, n, ''html''], [], [x, n])"
proof -
  from assms obtain c cs where s: "intercalate ''.'' [x, n, ''html''] = c # cs"
    by (cases x) auto
  have "rmatch itemFileRegExp b (intercalate ''.'' [x, n, ''html''])
          (intercalate ''.'' [x, n, ''html'']) [] = Some ([], [x, n])"
    using rmatch_itemFileRegExp [of x "[n, ''html'']"] assms by simp
  then have "rmatch itemFileRegExp b (c # cs) (c # cs) [] = Some ([], [x, n])"
    by (simp only: s)
  then have "rexec_from itemFileRegExp b pre (c # cs) = Some (rev pre, c # cs, [], [x, n])"
    by simp
  then show ?thesis by (simp only: s)
qed

text \<open>With no match possible from inside the first segment, the search moves on to the
  position after its dot.\<close>

lemma rexec_from_skip:
  assumes "CHR ''.'' \<notin> set x" "list_all (\<lambda>s. CHR ''.'' \<notin> set s) segs"
    and "\<not> (\<exists>n. segs = [n, ''html''] \<and> n \<noteq> [])"
  shows "rexec_from itemFileRegExp b pre (intercalate ''.'' (x # segs))
     = (if segs = [] then None
        else rexec_from itemFileRegExp False (CHR ''.'' # rev x @ pre) (intercalate ''.'' segs))"
  using assms(1)
proof (induction x arbitrary: b pre)
  case Nil
  have "rmatch itemFileRegExp b s mk [] = None" if "s = [] \<or> hd s = CHR ''.''" for s mk
    using that by (cases s) (auto simp: itemFileRegExp_def)
  then show ?case
    by (cases segs) (simp_all add: intercalate_Cons)
next
  case (Cons c cs)
  then have cs: "CHR ''.'' \<notin> set cs" by simp
  have all: "list_all (\<lambda>s. CHR ''.'' \<notin> set s) ((c # cs) # segs)"
    using Cons.prems assms(2) by simp
  have none: "rmatch itemFileRegExp b (intercalate ''.'' ((c # cs) # segs)) mk [] = None" for mk
    using rmatch_itemFileRegExp [OF all, of b mk] assms(3)
    by (auto split: list.splits)
  have str: "intercalate ''.'' ((c # cs) # segs) = c # intercalate ''.'' (cs # segs)"
    by (simp add: intercalate_Cons)
  have "rexec_from itemFileRegExp b pre (intercalate ''.'' ((c # cs) # segs))
          = rexec_from itemFileRegExp False (c # pre) (intercalate ''.'' (cs # segs))"
    using none [of "intercalate ''.'' ((c # cs) # segs)"] by (simp only: str) simp
  with Cons.IH [OF cs, of False "c # pre"] show ?case by simp
qed

lemma rexec_from_empty_segment:
  "rexec_from itemFileRegExp b pre (intercalate ''.'' ([] # segs))
     = (if segs = [] then None
        else rexec_from itemFileRegExp False (CHR ''.'' # pre) (intercalate ''.'' segs))"
proof -
  have "rmatch itemFileRegExp b s mk [] = None" if "s = [] \<or> hd s = CHR ''.''" for s mk
    using that by (cases s) (auto simp: itemFileRegExp_def)
  then show ?thesis
    by (cases segs) (simp_all add: intercalate_Cons)
qed

lemma itemParts_skip:
  "\<not> (\<exists>n. segs = [n, ''html''] \<and> n \<noteq> []) \<Longrightarrow> itemParts (x # segs) = itemParts segs"
proof (cases segs)
  case Nil
  then show ?thesis by simp
next
  case s1: (Cons y ys)
  assume ng: "\<not> (\<exists>n. segs = [n, ''html''] \<and> n \<noteq> [])"
  show ?thesis
  proof (cases ys)
    case Nil
    with s1 show ?thesis by simp
  next
    case s2: (Cons h hs)
    show ?thesis
    proof (cases hs)
      case Nil
      with s1 s2 ng show ?thesis by auto
    next
      case (Cons w rest)
      with s1 s2 show ?thesis by simp
    qed
  qed
qed

definition groupsOf :: "(string \<times> string \<times> string \<times> string list) option \<Rightarrow> string list option" where
  "groupsOf r = (case r of None \<Rightarrow> None | Some (before, matched, after, caps) \<Rightarrow> Some caps)"

lemma rexec_from_itemParts:
  "list_all (\<lambda>s. CHR ''.'' \<notin> set s) (x # segs) \<Longrightarrow>
   groupsOf (rexec_from itemFileRegExp b pre (intercalate ''.'' (x # segs)))
     = (case itemParts (x # segs) of None \<Rightarrow> None | Some (a, n) \<Rightarrow> Some [a, n])"
proof (induction segs arbitrary: x b pre)
  case Nil
  then have "CHR ''.'' \<notin> set x" by simp
  from rexec_from_skip [OF this, of "[]" b pre] show ?case
    by (simp add: groupsOf_def)
next
  case (Cons y ys)
  then have x: "CHR ''.'' \<notin> set x" and y: "CHR ''.'' \<notin> set y"
    and rest: "list_all (\<lambda>s. CHR ''.'' \<notin> set s) (y # ys)"
    by simp_all
  note ih = Cons.IH [OF rest]
  show ?case
  proof (cases "\<exists>n. y # ys = [n, ''html''] \<and> n \<noteq> []")
    case good: True
    then have ys: "ys = [''html'']" and yne: "y \<noteq> []" by auto
    show ?thesis
    proof (cases "x = []")
      case True
      have "rexec_from itemFileRegExp b pre (intercalate ''.'' ([] # y # ys))
              = rexec_from itemFileRegExp False (CHR ''.'' # pre) (intercalate ''.'' (y # ys))"
        using rexec_from_empty_segment [of b pre "y # ys"] by simp
      with ih [of False "CHR ''.'' # pre"] True ys show ?thesis by simp
    next
      case False
      from rexec_from_hit [OF x y False yne, of b pre] ys False yne show ?thesis
        by (simp add: groupsOf_def)
    qed
  next
    case False
    from rexec_from_skip [OF x rest False, of b pre]
    have "rexec_from itemFileRegExp b pre (intercalate ''.'' (x # y # ys))
            = rexec_from itemFileRegExp False (CHR ''.'' # rev x @ pre) (intercalate ''.'' (y # ys))"
      by simp
    with ih [of False "CHR ''.'' # rev x @ pre"] itemParts_skip [OF False, of x]
    show ?thesis by simp
  qed
qed

lemma split_char_nonempty: "split_char c s \<noteq> []"
  by (induction s) (auto split: list.splits)

lemma split_char_free: "list_all (\<lambda>seg. c \<notin> set seg) (split_char c s)"
  by (induction s) (auto split: list.splits)

lemma intercalate_split_char: "intercalate [c] (split_char c s) = s"
proof (induction s)
  case Nil
  then show ?case by simp
next
  case (Cons x xs)
  obtain y ys where sp: "split_char c xs = y # ys"
    using split_char_nonempty [of c xs] by (cases "split_char c xs") auto
  with Cons show ?case by (auto simp: intercalate_Cons)
qed

text \<open>The groups of the leftmost match of the pattern in a file name.\<close>

lemma RegExp_exec_itemFileRegExp:
  "groupsOf (RegExp_exec itemFileRegExp nm)
     = (case itemParts (split_char CHR ''.'' nm) of
          None \<Rightarrow> None
        | Some (a, n) \<Rightarrow> Some [a, n])"
proof -
  obtain x segs where sp: "split_char CHR ''.'' nm = x # segs"
    using split_char_nonempty [of "CHR ''.''" nm] by (cases "split_char CHR ''.'' nm") auto
  have "list_all (\<lambda>s. CHR ''.'' \<notin> set s) (x # segs)"
    using split_char_free [of "CHR ''.''" nm] by (simp only: sp)
  from rexec_from_itemParts [OF this, of True "[]"]
  have "groupsOf (rexec_from itemFileRegExp True [] (intercalate ''.'' (split_char CHR ''.'' nm)))
     = (case itemParts (split_char CHR ''.'' nm) of None \<Rightarrow> None | Some (a, n) \<Rightarrow> Some [a, n])"
    by (simp only: sp)
  then show ?thesis
    by (simp only: intercalate_split_char RegExp_exec_def)
qed

text \<open>
  The kind and the name that a file name gives, by its segments between dots: with a last
  segment \<open>html\<close>, the name is the segment before it and the kind the segment before
  the name; both must be non-empty.
\<close>

definition itemFileParts :: "string \<Rightarrow> (string \<times> string) option" where
  "itemFileParts nm =
     (let segs = split_char CHR ''.'' nm; n = length segs
      in if 3 \<le> n \<and> segs ! (n - 1) = ''html'' \<and> segs ! (n - 2) \<noteq> [] \<and> segs ! (n - 3) \<noteq> []
         then Some (segs ! (n - 3), segs ! (n - 2)) else None)"

text \<open>The same as the claim words it: the kind is the first segment.\<close>

definition claimedItemFileParts :: "string \<Rightarrow> (string \<times> string) option" where
  "claimedItemFileParts nm =
     (let segs = split_char CHR ''.'' nm; n = length segs
      in if 3 \<le> n \<and> segs ! (n - 1) = ''html'' \<and> segs ! (n - 2) \<noteq> [] \<and> segs ! 0 \<noteq> []
         then Some (segs ! 0, segs ! (n - 2)) else None)"

lemma itemParts_index:
  "itemParts segs =
     (let n = length segs
      in if 3 \<le> n \<and> segs ! (n - 1) = ''html'' \<and> segs ! (n - 2) \<noteq> [] \<and> segs ! (n - 3) \<noteq> []
         then Some (segs ! (n - 3), segs ! (n - 2)) else None)"
proof (induction segs rule: itemParts.induct)
  case (1 a n h)
  show ?case by (simp add: Let_def)
next
  case (2 a n h w rest)
  define xs where "xs = n # h # w # rest"
  have len: "3 \<le> length xs" by (simp add: xs_def)
  have idx: "(a # xs) ! (length (a # xs) - k) = xs ! (length xs - k)"
    if "1 \<le> k" "k \<le> 3" for k
  proof -
    have "length (a # xs) - k = Suc (length xs - k)" using len that by simp
    then show ?thesis by simp
  qed
  from 2 have "itemParts (a # xs) = itemParts xs"
    by (simp add: xs_def)
  also have "\<dots> = (let n = length xs
      in if 3 \<le> n \<and> xs ! (n - 1) = ''html'' \<and> xs ! (n - 2) \<noteq> [] \<and> xs ! (n - 3) \<noteq> []
         then Some (xs ! (n - 3), xs ! (n - 2)) else None)"
    using 2 by (simp only: xs_def)
  also have "\<dots> = (let n = length (a # xs)
      in if 3 \<le> n \<and> (a # xs) ! (n - 1) = ''html'' \<and> (a # xs) ! (n - 2) \<noteq> []
            \<and> (a # xs) ! (n - 3) \<noteq> []
         then Some ((a # xs) ! (n - 3), (a # xs) ! (n - 2)) else None)"
    using len idx [of 1] idx [of 2] idx [of 3] by (simp only: Let_def) simp
  finally show ?case by (simp only: xs_def)
qed (simp_all add: Let_def)

lemma RegExp_exec_itemFileParts:
  "groupsOf (RegExp_exec itemFileRegExp nm)
     = (case itemFileParts nm of None \<Rightarrow> None | Some (k, n) \<Rightarrow> Some [k, n])"
  by (simp only: RegExp_exec_itemFileRegExp itemFileParts_def itemParts_index Let_def)

lemma case_groups:
  "(case r of Some (before, matched, after, [k, n]) \<Rightarrow> F k n | _ \<Rightarrow> G)
     = (case groupsOf r of Some [k, n] \<Rightarrow> F k n | _ \<Rightarrow> G)"
  by (auto simp: groupsOf_def split: option.splits list.splits prod.splits)

text \<open>
  C4, as stated, fails: the pattern is searched for anywhere in the name, not from its
  start, so for \<open>a.b.c.html\<close> the kind is \<open>b\<close>, the segment before the name, and not the
  first segment \<open>a\<close>.
\<close>

theorem item_kind_first_segment_counterexample:
  "claimedItemFileParts ''a.b.c.html'' = Some (''a'', ''c'')
   \<and> docItemOfEntry env_doc ''/doc''
        \<lparr>we_path = ''/doc/a.b.c.html'', we_name = ''a.b.c.html'', we_isFile = True\<rparr>
     = Inr (Some \<lparr>kind = ''b'', module = Some ''.'', name = ''c'', docDir = ''/doc''\<rparr>)"
  by code_simp

text \<open>
  C4, amended. Take a walked file whose name is not \<open>index.html\<close>. When the regular
  expression that \<open>stripDir\<close> builds from the root cannot be constructed, the walker
  throws at this file and yields no item for it. Otherwise \<open>stripDir\<close> returns a path
  \<open>p\<close>; a file whose \<open>p\<close> begins with \<open>src/\<close> gives no item, and for any other file the
  item is given by the dot-separated segments of the file name: when the last segment is
  \<open>html\<close> and the two segments before it are not empty, the name is the segment before
  \<open>html\<close> and the kind is the segment before the name (so \<open>a.b.c.html\<close> gives kind \<open>b\<close>
  and name \<open>c\<close>); any other file name gives no item.
\<close>

theorem docItemOfEntry_item_file:
  assumes "we_isFile entry" and "we_name entry \<noteq> ''index.html''"
  shows "docItemOfEntry e dir entry =
           (case stripDir e (we_path entry) dir of
              Inl err \<Rightarrow> Inl err
            | Inr p \<Rightarrow>
                if startsWith p ''src/'' then Inr None
                else Inr (case itemFileParts (we_name entry) of
                            None \<Rightarrow> None
                          | Some (k, n) \<Rightarrow>
                              Some \<lparr>kind = k, module = Some (modulePath (dirname p)),
                                    name = n, docDir = dir\<rparr>))"
proof (cases "stripDir e (we_path entry) dir")
  case (Inl err)
  with assms show ?thesis by (simp add: docItemOfEntry_def)
next
  case (Inr p)
  show ?thesis
  proof (cases "startsWith p ''src/''")
    case True
    with Inr assms show ?thesis by (simp add: docItemOfEntry_def)
  next
    case False
    have "docItemOfEntry e dir entry =
        (case groupsOf (RegExp_exec itemFileRegExp (we_name entry)) of
           Some [k, n] \<Rightarrow>
             Inr (Some \<lparr>kind = k, module = Some (modulePath (dirname p)), name = n,
                        docDir = dir\<rparr>)
         | _ \<Rightarrow> Inr None)"
      using assms Inr False by (simp add: docItemOfEntry_def case_groups)
    with Inr False show ?thesis
      by (simp add: RegExp_exec_itemFileParts split: option.splits)
  qed
qed

theorem docItemOfEntry_item_file_witness:
  "docItemOfEntry env_doc ''/doc/''
     \<lparr>we_path = ''/doc/std/a.b.c.html'', we_name = ''a.b.c.html'', we_isFile = True\<rparr>
     = Inr (Some \<lparr>kind = ''b'', module = Some ''std'', name = ''c'', docDir = ''/doc/''\<rparr>)"
proof -
  have 1: "we_isFile \<lparr>we_path = ''/doc/std/a.b.c.html'', we_name = ''a.b.c.html'', we_isFile = True\<rparr>"
    by simp
  have 2: "we_name \<lparr>we_path = ''/doc/std/a.b.c.html'', we_name = ''a.b.c.html'', we_isFile = True\<rparr>
      \<noteq> ''index.html''"
    by simp
  have 3: "stripDir env_doc ''/doc/std/a.b.c.html'' ''/doc/'' = Inr ''std/a.b.c.html''"
    by code_simp
  have 4: "\<not> startsWith ''std/a.b.c.html'' ''src/''"
    by code_simp
  have 5: "itemFileParts ''a.b.c.html'' = Some (''b'', ''c'')"
    by code_simp
  have 6: "modulePath (dirname ''std/a.b.c.html'') = ''std''"
    by code_simp
  from docItemOfEntry_item_file [OF 1 2, of env_doc "''/doc/''"] show ?thesis
    by (simp add: 3 4 5 6)
qed

subsection \<open>Paths made of ordinary names\<close>

text \<open>A name as a directory listing gives it: not empty, without a slash, and neither
  \<open>.\<close> nor \<open>..\<close>.\<close>

definition cleanSeg :: "string \<Rightarrow> bool" where
  "cleanSeg s = (s \<noteq> [] \<and> CHR ''/'' \<notin> set s \<and> s \<noteq> ''.'' \<and> s \<noteq> ''..'')"

lemma split_char_append:
  "split_char c (a @ c # b) = split_char c a @ split_char c b"
proof (induction a)
  case Nil
  then show ?case by simp
next
  case (Cons x xs)
  obtain y ys where "split_char c xs = y # ys"
    using split_char_nonempty [of c xs] by (cases "split_char c xs") auto
  with Cons show ?case by simp
qed

lemma split_char_none: "c \<notin> set s \<Longrightarrow> split_char c s = [s]"
  by (induction s) auto

lemma split_char_intercalate:
  "segs \<noteq> [] \<Longrightarrow> list_all (\<lambda>s. c \<notin> set s) segs \<Longrightarrow> split_char c (intercalate [c] segs) = segs"
proof (induction segs)
  case Nil
  then show ?case by simp
next
  case (Cons x xs)
  show ?case
  proof (cases xs)
    case Nil
    with Cons.prems show ?thesis by (simp add: split_char_none)
  next
    case (Cons y ys)
    with Cons.prems Cons.IH have "split_char c (intercalate [c] xs) = xs" by simp
    moreover have "intercalate [c] (x # xs) = x @ c # intercalate [c] xs"
      using Cons by simp
    ultimately show ?thesis
      using Cons.prems by (simp add: split_char_append split_char_none del: intercalate.simps)
  qed
qed

lemma normalizeStep_clean:
  "list_all (\<lambda>s. s = [] \<or> s = ''.'' \<or> cleanSeg s) segs \<Longrightarrow>
   foldl (normalizeStep a) acc segs = acc @ filter cleanSeg segs"
proof (induction segs arbitrary: acc)
  case Nil
  then show ?case by simp
next
  case (Cons s segs)
  then have rest: "list_all (\<lambda>s. s = [] \<or> s = ''.'' \<or> cleanSeg s) segs" by simp
  from Cons.prems have "s = [] \<or> s = ''.'' \<or> cleanSeg s" by simp
  then have "normalizeStep a acc s = acc @ filter cleanSeg [s]"
    by (auto simp: normalizeStep_def cleanSeg_def)
  with Cons.IH [OF rest, of "normalizeStep a acc s"] show ?case by simp
qed

lemma intercalate_append:
  "xs \<noteq> [] \<Longrightarrow> ys \<noteq> [] \<Longrightarrow>
   intercalate sep (xs @ ys) = intercalate sep xs @ sep @ intercalate sep ys"
proof (induction xs)
  case Nil
  then show ?case by simp
next
  case (Cons x xs)
  then show ?case by (cases xs; cases ys) simp_all
qed

lemma intercalate_empty_iff:
  "list_all (\<lambda>s. s \<noteq> []) xs \<Longrightarrow> (intercalate sep xs = []) = (xs = [])"
proof (cases xs)
  case Nil
  then show ?thesis by simp
next
  case (Cons x ys)
  assume "list_all (\<lambda>s. s \<noteq> []) xs"
  with Cons show ?thesis by (cases ys) simp_all
qed

text \<open>A path of ordinary names, rooted or not.\<close>

definition pathOf :: "bool \<Rightarrow> string list \<Rightarrow> string" where
  "pathOf rooted segs = (if rooted then ''/'' else []) @ intercalate ''/'' segs"

lemma intercalate_concat:
  "intercalate sep (x # xs) = x @ concat (map (\<lambda>m. sep @ m) xs)"
  by (induction xs arbitrary: x) simp_all

lemma split_char_segments:
  "list_all (\<lambda>m. c \<notin> set m) ms \<Longrightarrow>
   split_char c (a @ concat (map (\<lambda>m. [c] @ m) ms)) = split_char c a @ ms"
proof (induction ms arbitrary: a)
  case Nil
  then show ?case by simp
next
  case (Cons m ms)
  then have m: "c \<notin> set m" and ms: "list_all (\<lambda>m. c \<notin> set m) ms" by simp_all
  from Cons.IH [OF ms, of "a @ c # m"] show ?case
    by (simp add: split_char_append split_char_none [OF m])
qed

lemma hd_intercalate: "xs \<noteq> [] \<Longrightarrow> hd xs \<noteq> [] \<Longrightarrow> hd (intercalate sep xs) = hd (hd xs)"
  by (cases xs) (simp_all add: intercalate_concat)

lemma intercalate_last_nonempty:
  "xs \<noteq> [] \<Longrightarrow> last xs \<noteq> [] \<Longrightarrow> intercalate sep xs \<noteq> []"
proof (induction xs)
  case Nil
  then show ?case by simp
next
  case (Cons x xs)
  then show ?case by (cases xs) simp_all
qed

lemma last_intercalate:
  "xs \<noteq> [] \<Longrightarrow> last xs \<noteq> [] \<Longrightarrow> last (intercalate sep xs) = last (last xs)"
proof (induction xs)
  case Nil
  then show ?case by simp
next
  case (Cons x xs)
  show ?case
  proof (cases xs)
    case Nil
    then show ?thesis by simp
  next
    case (Cons y ys)
    with Cons.prems have ne: "xs \<noteq> []" "last xs \<noteq> []" by simp_all
    from intercalate_last_nonempty [OF ne] Cons.IH [OF ne] Cons show ?thesis
      by (simp del: intercalate.simps add: intercalate.simps(3))
  qed
qed

lemma cleanSeg_chars:
  assumes "cleanSeg s"
  shows "s \<noteq> [] \<and> hd s \<noteq> CHR ''/'' \<and> last s \<noteq> CHR ''/'' \<and> CHR ''/'' \<notin> set s"
proof -
  from assms have ne: "s \<noteq> []" and free: "CHR ''/'' \<notin> set s"
    by (simp_all add: cleanSeg_def)
  from ne have "hd s \<in> set s" "last s \<in> set s" by simp_all
  with ne free show ?thesis by metis
qed

lemma split_char_dir:
  assumes "rs \<noteq> []" and "list_all cleanSeg rs"
  shows "split_char CHR ''/'' (pathOf rooted rs @ (if slash then ''/'' else []))
     = (if rooted then [[]] else []) @ rs @ (if slash then [[]] else [])"
proof -
  have free: "list_all (\<lambda>s. CHR ''/'' \<notin> set s) rs"
    using assms(2) by (induction rs) (simp_all add: cleanSeg_def)
  have body: "split_char CHR ''/'' (intercalate ''/'' rs) = rs"
    using split_char_intercalate [OF assms(1) free] by simp
  have tail: "split_char CHR ''/'' (b @ (if slash then ''/'' else []))
      = split_char CHR ''/'' b @ (if slash then [[]] else [])" for b
    using split_char_append [of "CHR ''/''" b "[]"] by simp
  have front: "split_char CHR ''/'' (pathOf rooted rs)
      = (if rooted then [[]] else []) @ rs"
    using split_char_append [of "CHR ''/''" "[]" "intercalate ''/'' rs"] body
    by (simp add: pathOf_def)
  show ?thesis by (simp only: tail front append_assoc)
qed

text \<open>\<open>join\<close> of a directory made of ordinary names (with or without a trailing slash)
  and further components, each an ordinary name or \<open>.\<close>.\<close>

lemma join_clean:
  assumes rs: "rs \<noteq> []" "list_all cleanSeg rs"
    and ms: "list_all (\<lambda>m. m = ''.'' \<or> cleanSeg m) ms"
  shows "join ((pathOf rooted rs @ (if slash then ''/'' else [])) # ms)
     = pathOf rooted (rs @ filter cleanSeg ms) @ (if ms = [] \<and> slash then ''/'' else [])"
proof -
  define dir where "dir = pathOf rooted rs @ (if slash then ''/'' else [])"
  define joined where "joined = dir @ concat (map (\<lambda>m. ''/'' @ m) ms)"
  obtain r rs' where rcons: "rs = r # rs'" using rs(1) by (cases rs) auto
  have r: "r \<noteq> []" "hd r \<noteq> CHR ''/''" using rs(2) rcons cleanSeg_chars [of r] by simp_all
  have lastrs: "last rs \<noteq> []" "last (last rs) \<noteq> CHR ''/''"
    using rs cleanSeg_chars [of "last rs"] by (simp_all add: list_all_iff)
  have body_ne: "intercalate ''/'' rs \<noteq> []"
    using intercalate_last_nonempty [OF rs(1) lastrs(1)] .
  have dir_ne: "dir \<noteq> []" using body_ne by (simp add: dir_def pathOf_def)
  have ms_ne: "list_all (\<lambda>m. m \<noteq> []) ms"
    using ms by (induction ms) (auto simp: cleanSeg_def)
  have ms_free: "list_all (\<lambda>m. CHR ''/'' \<notin> set m) ms"
    using ms by (induction ms) (auto simp: cleanSeg_def)
  have filt: "filter (\<lambda>p. p \<noteq> []) (dir # ms) = dir # ms"
    using dir_ne ms_ne by (simp add: list_all_iff)
  have j: "intercalate ''/'' (dir # ms) = joined"
    by (simp only: joined_def intercalate_concat)
  have joined_ne: "joined \<noteq> []" using dir_ne by (simp add: joined_def)
  define segl where
    "segl = (if rooted then [[]] else []) @ rs @ (if slash then [[]] else []) @ ms"
  have segs: "split_char CHR ''/'' joined = segl"
    using split_char_segments [OF ms_free, of dir] split_char_dir [OF rs, of rooted slash]
    by (simp add: joined_def dir_def segl_def)
  have allowed: "list_all (\<lambda>s. s = [] \<or> s = ''.'' \<or> cleanSeg s) segl"
    using rs(2) ms by (auto simp: list_all_iff segl_def)
  have filt2: "filter cleanSeg segl = rs @ filter cleanSeg ms"
    using rs(2) by (auto simp: list_all_iff cleanSeg_def filter_id_conv segl_def)
  have norm: "normalizeString joined a = intercalate ''/'' (rs @ filter cleanSeg ms)" for a
    unfolding normalizeString_def segs
    using normalizeStep_clean [OF allowed, of a "[]"] filt2 by simp
  have norm_ne: "intercalate ''/'' (rs @ filter cleanSeg ms) \<noteq> []"
  proof -
    have "list_all (\<lambda>s. s \<noteq> []) (rs @ filter cleanSeg ms)"
      using rs(2) by (auto simp: list_all_iff cleanSeg_def)
    from intercalate_empty_iff [OF this] rs(1) show ?thesis by simp
  qed
  have hd_joined: "(hd joined = CHR ''/'') = rooted"
  proof (cases rooted)
    case True
    then show ?thesis by (simp add: joined_def dir_def pathOf_def)
  next
    case False
    have "hd (intercalate ''/'' rs) = hd r"
      using hd_intercalate [of rs "''/''"] rcons r by simp
    with False body_ne r show ?thesis by (simp add: joined_def dir_def pathOf_def)
  qed
  have last_joined: "(last joined = CHR ''/'') = (ms = [] \<and> slash)"
  proof (cases ms rule: rev_cases)
    case Nil
    have "last (pathOf rooted rs) = last (last rs)"
      using body_ne last_intercalate [OF rs(1) lastrs(1), of "''/''"] by (simp add: pathOf_def)
    with Nil lastrs body_ne show ?thesis
      by (simp add: joined_def dir_def pathOf_def)
  next
    case (snoc ms' m)
    with ms have "m = ''.'' \<or> cleanSeg m" by simp
    then have "m \<noteq> [] \<and> last m \<noteq> CHR ''/''"
      using cleanSeg_chars [of m] by auto
    with snoc show ?thesis by (simp add: joined_def)
  qed
  have "normalize joined
      = pathOf rooted (rs @ filter cleanSeg ms) @ (if ms = [] \<and> slash then ''/'' else [])"
    using joined_ne norm_ne body_ne
    by (simp add: normalize_def Let_def norm hd_joined last_joined pathOf_def)
  with joined_ne show ?thesis
    by (simp only: join_def filt j Let_def dir_def [symmetric] if_False)
qed

lemma dropWhile_hd_id: "ys \<noteq> [] \<Longrightarrow> \<not> P (hd ys) \<Longrightarrow> dropWhile P ys = ys"
  by (cases ys) simp_all

lemma rev_component:
  assumes "x \<noteq> []" "CHR ''/'' \<notin> set x"
  shows "dropWhile (\<lambda>c. c = CHR ''/'') (rev x @ zs) = rev x @ zs"
    and "dropWhile (\<lambda>c. c \<noteq> CHR ''/'') (rev x @ CHR ''/'' # zs) = CHR ''/'' # zs"
    and "takeWhile (\<lambda>c. c \<noteq> CHR ''/'') (rev x @ CHR ''/'' # zs) = rev x"
    and "dropWhile (\<lambda>c. c \<noteq> CHR ''/'') (rev x) = []"
    and "takeWhile (\<lambda>c. c \<noteq> CHR ''/'') (rev x) = rev x"
proof -
  define y where "y = rev x"
  have y: "y \<noteq> []" "CHR ''/'' \<notin> set y" using assms by (simp_all add: y_def)
  then have "hd y \<in> set y" by simp
  with y(2) have "hd y \<noteq> CHR ''/''" by metis
  with y(1) have hd: "hd (y @ zs) \<noteq> CHR ''/''" by simp
  have all: "\<forall>c\<in>set y. c \<noteq> CHR ''/''" using y(2) by auto
  show "dropWhile (\<lambda>c. c = CHR ''/'') (rev x @ zs) = rev x @ zs"
    unfolding y_def [symmetric] using y(1) hd by (intro dropWhile_hd_id) simp_all
  show "dropWhile (\<lambda>c. c \<noteq> CHR ''/'') (rev x @ CHR ''/'' # zs) = CHR ''/'' # zs"
    unfolding y_def [symmetric] using all by (simp add: dropWhile_append3)
  show "takeWhile (\<lambda>c. c \<noteq> CHR ''/'') (rev x @ CHR ''/'' # zs) = rev x"
    unfolding y_def [symmetric] using all by (simp add: takeWhile_tail)
  show "dropWhile (\<lambda>c. c \<noteq> CHR ''/'') (rev x) = []"
    unfolding y_def [symmetric] using all by simp
  show "takeWhile (\<lambda>c. c \<noteq> CHR ''/'') (rev x) = rev x"
    unfolding y_def [symmetric] using all by simp
qed


lemma dirname_last_component:
  assumes "x \<noteq> []" "CHR ''/'' \<notin> set x" "q \<noteq> []" "q \<noteq> ''/''"
  shows "dirname (q @ CHR ''/'' # x) = q"
proof -
  obtain c q' where q: "q = c # q'" using assms(3) by (cases q) auto
  have tl: "rev (tl (q @ CHR ''/'' # x)) = rev x @ CHR ''/'' # rev q'"
    by (simp add: q)
  have r: "dropWhile (\<lambda>c. c \<noteq> CHR ''/'')
             (dropWhile (\<lambda>c. c = CHR ''/'') (rev (tl (q @ CHR ''/'' # x))))
           = CHR ''/'' # rev q'"
    by (simp only: tl rev_component(1) [OF assms(1,2)] rev_component(2) [OF assms(1,2)])
  have len: "length (CHR ''/'' # rev q') = length q" by (simp add: q)
  have notroot: "\<not> (hd (q @ CHR ''/'' # x) = CHR ''/'' \<and> length q = 1)"
    using assms(4) by (auto simp: q)
  have ne: "q @ CHR ''/'' # x \<noteq> []" by simp
  have "dirname (q @ CHR ''/'' # x) = take (length q) (q @ CHR ''/'' # x)"
    unfolding dirname_def Let_def r len using notroot ne by (simp only: if_False list.simps) 
  then show ?thesis by simp
qed

lemma dirname_single:
  assumes "x \<noteq> []" "CHR ''/'' \<notin> set x"
  shows "dirname x = ''.''"
proof -
  have hdx: "hd x \<noteq> CHR ''/''" using assms by (metis hd_in_set)
  have "\<forall>c \<in> set (dropWhile (\<lambda>c. c = CHR ''/'') (rev (tl x))). c \<noteq> CHR ''/''"
  proof
    fix c assume "c \<in> set (dropWhile (\<lambda>c. c = CHR ''/'') (rev (tl x)))"
    then have "c \<in> set (rev (tl x))" by (rule set_dropWhileD)
    then have "c \<in> set x" using assms(1) by (cases x) auto
    with assms(2) show "c \<noteq> CHR ''/''" by metis
  qed
  then have r: "dropWhile (\<lambda>c. c \<noteq> CHR ''/'') (dropWhile (\<lambda>c. c = CHR ''/'') (rev (tl x))) = []"
    by (simp only: dropWhile_eq_Nil_conv)
  show ?thesis unfolding dirname_def Let_def r using assms(1) hdx by simp
qed

lemma basename_last_component:
  assumes "x \<noteq> []" "CHR ''/'' \<notin> set x"
  shows "basename (q @ CHR ''/'' # x) = x"
proof -
  have "rev (q @ CHR ''/'' # x) = rev x @ CHR ''/'' # rev q" by simp
  then show ?thesis
    unfolding basename_def
    by (simp only: rev_component(1) [OF assms] rev_component(3) [OF assms] rev_rev_ident)
qed

lemma basename_single:
  assumes "x \<noteq> []" "CHR ''/'' \<notin> set x"
  shows "basename x = x"
proof -
  have "dropWhile (\<lambda>c. c = CHR ''/'') (rev x) = rev x"
    using rev_component(1) [OF assms, of "[]"] by simp
  then show ?thesis
    unfolding basename_def
    by (simp only: rev_component(5) [OF assms] rev_rev_ident)
qed

subsection \<open>The module path and back\<close>

lemma rexec_from_trailing_slash_none:
  "s = [] \<or> last s \<noteq> CHR ''/'' \<Longrightarrow> rexec_from trailingSlashRegExp b pre s = None"
proof (induction s arbitrary: b pre)
  case Nil
  then show ?case by (simp add: trailingSlashRegExp_def)
next
  case (Cons c cs)
  then have "cs = [] \<or> last cs \<noteq> CHR ''/''" by (cases cs) simp_all
  from Cons.IH [OF this] have ih: "rexec_from trailingSlashRegExp False (c # pre) cs = None" .
  have "rmatch trailingSlashRegExp b (c # cs) (c # cs) [] = None"
    using Cons.prems by (cases cs) (auto simp: trailingSlashRegExp_def)
  with ih show ?case by simp
qed

lemma replace_first_no_trailing_slash:
  "s = [] \<or> last s \<noteq> CHR ''/'' \<Longrightarrow> replace_first trailingSlashRegExp [] s = s"
  by (simp add: replace_first_def RegExp_exec_def rexec_from_trailing_slash_none)

lemma replace_all_slash:
  "replace_all slashRegExp ''::'' b s
     = concat (map (\<lambda>c. if c = CHR ''/'' then ''::'' else [c]) s)"
proof (induction s arbitrary: b)
  case Nil
  then show ?case by (simp add: slashRegExp_def)
next
  case (Cons c cs)
  have "rmatch slashRegExp b (c # cs) (c # cs) [] = (if c = CHR ''/'' then Some (cs, []) else None)"
    by (simp add: slashRegExp_def)
  with Cons.IH [of False] show ?case by simp
qed

lemma slashes_none:
  "CHR ''/'' \<notin> set x \<Longrightarrow> concat (map (\<lambda>c. if c = CHR ''/'' then ''::'' else [c]) x) = x"
  by (induction x) auto

lemma slashes_intercalate:
  "list_all (\<lambda>s. CHR ''/'' \<notin> set s) ds \<Longrightarrow>
   concat (map (\<lambda>c. if c = CHR ''/'' then ''::'' else [c]) (intercalate ''/'' ds))
     = intercalate ''::'' ds"
proof (induction ds)
  case Nil
  then show ?case by simp
next
  case (Cons d ds)
  then show ?case by (cases ds) (simp_all add: slashes_none)
qed

text \<open>The module path of a directory given by ordinary names: the names, joined by
  \<open>::\<close>.\<close>

lemma modulePath_clean:
  assumes "ds \<noteq> []" "list_all cleanSeg ds"
  shows "modulePath (intercalate ''/'' ds) = intercalate ''::'' ds"
proof -
  have free: "list_all (\<lambda>s. CHR ''/'' \<notin> set s) ds"
    using assms(2) by (auto simp: list_all_iff cleanSeg_def)
  have "last ds \<noteq> []" "last (last ds) \<noteq> CHR ''/''"
    using assms cleanSeg_chars [of "last ds"] by (simp_all add: list_all_iff)
  then have "last (intercalate ''/'' ds) \<noteq> CHR ''/''"
    using last_intercalate [OF assms(1), of "''/''"] by simp
  then have "replace_first trailingSlashRegExp [] (intercalate ''/'' ds) = intercalate ''/'' ds"
    by (intro replace_first_no_trailing_slash) simp
  then show ?thesis
    by (simp only: modulePath_def replace_all_slash slashes_intercalate [OF free])
qed

lemma modulePath_dot: "modulePath ''.'' = ''.''"
  by code_simp

lemma split_colons_none: "CHR '':'' \<notin> set x \<Longrightarrow> split_colons cur x = [rev cur @ x]"
proof (induction x arbitrary: cur)
  case Nil
  then show ?case by simp
next
  case (Cons c cs)
  then show ?case by (cases cs) auto
qed

lemma split_colons_segment:
  "CHR '':'' \<notin> set x \<Longrightarrow>
   split_colons cur (x @ ''::'' @ s) = (rev cur @ x) # split_colons [] s"
proof (induction x arbitrary: cur)
  case Nil
  then show ?case by simp
next
  case (Cons c cs)
  then show ?case by (cases cs) auto
qed

lemma split_colons_intercalate:
  "ds \<noteq> [] \<Longrightarrow> list_all (\<lambda>s. CHR '':'' \<notin> set s) ds \<Longrightarrow>
   split_colons [] (intercalate ''::'' ds) = ds"
proof (induction ds)
  case Nil
  then show ?case by simp
next
  case (Cons d ds)
  show ?case
  proof (cases ds)
    case Nil
    with Cons.prems show ?thesis by (simp add: split_colons_none)
  next
    case (Cons e es)
    with Cons.prems Cons.IH have "split_colons [] (intercalate ''::'' ds) = ds" by simp
    moreover have "intercalate ''::'' (d # ds) = d @ ''::'' @ intercalate ''::'' ds"
      using Cons by simp
    ultimately show ?thesis
      using Cons.prems split_colons_segment [of d "[]" "intercalate ''::'' ds"]
      by (simp del: intercalate.simps)
  qed
qed

subsection \<open>Files below a root\<close>

text \<open>
  \<open>walkedFile dir entry rooted rs slash ds\<close>: the root \<open>dir\<close> is the path of the ordinary
  names \<open>rs\<close> (rooted or relative, with or without a trailing slash) and has no character
  that the pattern of \<open>stripDir\<close> would read as an operator; \<open>entry\<close> is what the walk
  gives for a file in the directory \<open>ds\<close> below the root: its path is the normalized root
  joined with \<open>ds\<close> and the file name.
\<close>

definition walkedFile :: "string \<Rightarrow> WalkEntry \<Rightarrow> bool \<Rightarrow> string list \<Rightarrow> bool \<Rightarrow> string list \<Rightarrow> bool" where
  "walkedFile dir entry rooted rs slash ds =
     (rs \<noteq> [] \<and> list_all cleanSeg rs \<and> list_all cleanSeg ds \<and> cleanSeg (we_name entry)
      \<and> dir = pathOf rooted rs @ (if slash then ''/'' else [])
      \<and> list_all isFragmentChar dir
      \<and> we_path entry = pathOf rooted (rs @ ds @ [we_name entry]))"

lemma pathOf_append:
  "rs \<noteq> [] \<Longrightarrow> ms \<noteq> [] \<Longrightarrow>
   pathOf rooted (rs @ ms) = pathOf rooted rs @ ''/'' @ intercalate ''/'' ms"
  by (simp add: pathOf_def intercalate_append)

lemma pathOf_last:
  assumes "rs \<noteq> []" "list_all cleanSeg rs"
  shows "pathOf rooted rs \<noteq> []" and "last (pathOf rooted rs) \<noteq> CHR ''/''"
proof -
  have l: "last rs \<noteq> []" "last (last rs) \<noteq> CHR ''/''"
    using assms cleanSeg_chars [of "last rs"] by (simp_all add: list_all_iff)
  have ne: "intercalate ''/'' rs \<noteq> []"
    using intercalate_last_nonempty [OF assms(1) l(1)] .
  then show "pathOf rooted rs \<noteq> []" by (simp add: pathOf_def)
  show "last (pathOf rooted rs) \<noteq> CHR ''/''"
    using ne l last_intercalate [OF assms(1) l(1), of "''/''"] by (simp add: pathOf_def)
qed

lemma endsWith_slash: "endsWith s ''/'' = (s \<noteq> [] \<and> last s = CHR ''/'')"
proof (cases s rule: rev_cases)
  case Nil
  then show ?thesis by (simp add: endsWith_def)
next
  case (snoc ys y)
  then show ?thesis by (simp add: endsWith_def)
qed

lemma walkedFile_stripDir:
  assumes "walkedFile dir entry rooted rs slash ds"
  shows "stripDir e (we_path entry) dir = Inr (intercalate ''/'' (ds @ [we_name entry]))"
proof -
  have rs: "rs \<noteq> []" "list_all cleanSeg rs"
    and dir: "dir = pathOf rooted rs @ (if slash then ''/'' else [])"
    and frag: "list_all isFragmentChar dir"
    and path: "we_path entry = pathOf rooted (rs @ ds @ [we_name entry])"
    using assms unfolding walkedFile_def by blast+
  have "(if endsWith dir ''/'' then dir else dir @ ''/'') = pathOf rooted rs @ ''/''"
    using pathOf_last [OF rs, of rooted] by (cases slash) (simp_all add: dir endsWith_slash)
  moreover have "we_path entry = (pathOf rooted rs @ ''/'') @ intercalate ''/'' (ds @ [we_name entry])"
    using pathOf_append [OF rs(1), of "ds @ [we_name entry]" rooted] by (simp add: path)
  ultimately show ?thesis
    using stripDir_prefix [OF frag, of e "intercalate ''/'' (ds @ [we_name entry])"] by simp
qed

text \<open>The relative path of a file in the directory \<open>ds\<close>, its \<open>dirname\<close> and the module
  path of that.\<close>

lemma relative_not_dot:
  assumes "ds \<noteq> []" "list_all cleanSeg ds"
  shows "intercalate ''/'' ds \<noteq> ''.''" and "intercalate ''/'' ds \<noteq> []"
    and "intercalate ''/'' ds \<noteq> ''/''"
proof -
  have free: "list_all (\<lambda>s. CHR ''/'' \<notin> set s) ds"
    using assms(2) by (auto simp: list_all_iff cleanSeg_def)
  have sp: "split_char CHR ''/'' (intercalate ''/'' ds) = ds"
    using split_char_intercalate [OF assms(1) free] by simp
  show "intercalate ''/'' ds \<noteq> ''.''"
  proof
    assume "intercalate ''/'' ds = ''.''"
    with sp have "ds = [''.'']" by simp
    with assms(2) show False by (simp add: cleanSeg_def)
  qed
  show "intercalate ''/'' ds \<noteq> []"
  proof
    assume "intercalate ''/'' ds = []"
    with sp have "ds = [[]]" by simp
    with assms(2) show False by (simp add: cleanSeg_def)
  qed
  show "intercalate ''/'' ds \<noteq> ''/''"
  proof
    assume "intercalate ''/'' ds = ''/''"
    with sp have "ds = [[], []]" by simp
    with assms(2) show False by (simp add: cleanSeg_def)
  qed
qed

lemma dirname_relative:
  assumes "list_all cleanSeg ds" "cleanSeg nm"
  shows "dirname (intercalate ''/'' (ds @ [nm])) = (if ds = [] then ''.'' else intercalate ''/'' ds)"
proof (cases "ds = []")
  case True
  with assms(2) show ?thesis by (simp add: dirname_single cleanSeg_def)
next
  case False
  have "intercalate ''/'' (ds @ [nm]) = intercalate ''/'' ds @ CHR ''/'' # nm"
    using intercalate_append [OF False, of "[nm]" "''/''"] by simp
  with False relative_not_dot [OF False assms(1)] assms(2) show ?thesis
    by (simp add: dirname_last_component cleanSeg_def)
qed

lemma basename_relative:
  assumes "ds \<noteq> []" "list_all cleanSeg ds"
  shows "basename (intercalate ''/'' ds) = last ds"
proof -
  from assms(1) obtain ds' m where ds: "ds = ds' @ [m]" by (cases ds rule: rev_cases) auto
  with assms(2) have m: "m \<noteq> []" "CHR ''/'' \<notin> set m" by (simp_all add: cleanSeg_def)
  show ?thesis
  proof (cases "ds' = []")
    case True
    with ds m show ?thesis by (simp add: basename_single)
  next
    case False
    have "intercalate ''/'' (ds' @ [m]) = intercalate ''/'' ds' @ CHR ''/'' # m"
      using intercalate_append [OF False, of "[m]" "''/''"] by simp
    with ds m show ?thesis by (simp add: basename_last_component)
  qed
qed

text \<open>What \<open>getDocItems\<close> makes of such a file.\<close>

lemma docItemOfEntry_index_file:
  assumes w: "walkedFile dir entry rooted rs slash ds"
    and nm: "we_name entry = ''index.html''"
    and yields: "docItemOfEntry e dir entry = Inr (Some item)"
  shows "ds \<noteq> [] \<and>
         item = \<lparr>kind = ''module'',
                 module = (if butlast ds = [] then None
                           else Some (intercalate ''::'' (butlast ds))),
                 name = last ds, docDir = dir\<rparr>"
proof -
  have ds: "list_all cleanSeg ds" and cn: "cleanSeg (we_name entry)"
    using w unfolding walkedFile_def by blast+
  define p where "p = intercalate ''/'' (ds @ [we_name entry])"
  have strip: "stripDir e (we_path entry) dir = Inr p"
    using walkedFile_stripDir [OF w] by (simp add: p_def)
  have dn: "dirname p = (if ds = [] then ''.'' else intercalate ''/'' ds)"
    unfolding p_def by (rule dirname_relative [OF ds cn])
  show ?thesis
  proof (cases "ds = []")
    case True
    then have "basename (dirname p) = ''.''"
      by (simp add: dn basename_single)
    with yields strip nm show ?thesis
      by (simp add: docItemOfEntry_def split: if_splits)
  next
    case False
    then obtain ds' m where dsm: "ds = ds' @ [m]" by (cases ds rule: rev_cases) auto
    with ds have ds': "list_all cleanSeg ds'" and m: "cleanSeg m" by simp_all
    have bn: "basename (dirname p) = m"
      using basename_relative [OF False ds] False by (simp add: dn dsm)
    have dd: "dirname (dirname p) = (if ds' = [] then ''.'' else intercalate ''/'' ds')"
      using dirname_relative [OF ds' m] False by (simp add: dn dsm)
    have mp: "ds' \<noteq> [] \<Longrightarrow> modulePath (intercalate ''/'' ds') = intercalate ''::'' ds'
                \<and> intercalate ''/'' ds' \<noteq> ''.''"
      using modulePath_clean [of ds'] relative_not_dot(1) [of ds'] ds' by simp
    from m have mdot: "m \<noteq> ''.''" by (simp add: cleanSeg_def)
    show ?thesis
    proof (cases "ds' = []")
      case True
      with yields strip nm bn dd mdot dsm show ?thesis
        by (simp add: docItemOfEntry_def Let_def split: if_splits)
    next
      case False
      with mp have "modulePath (intercalate ''/'' ds') = intercalate ''::'' ds'"
        and "intercalate ''/'' ds' \<noteq> ''.''" by simp_all
      with yields strip nm bn dd mdot dsm False show ?thesis
        by (simp add: docItemOfEntry_def Let_def split: if_splits)
    qed
  qed
qed

lemma docItemOfEntry_item:
  assumes w: "walkedFile dir entry rooted rs slash ds"
    and nm: "we_name entry \<noteq> ''index.html''"
    and yields: "docItemOfEntry e dir entry = Inr (Some item)"
  shows "\<exists>k n. itemParts (split_char CHR ''.'' (we_name entry)) = Some (k, n)
           \<and> item = \<lparr>kind = k,
                      module = Some (if ds = [] then ''.'' else intercalate ''::'' ds),
                      name = n, docDir = dir\<rparr>"
proof -
  have ds: "list_all cleanSeg ds" and cn: "cleanSeg (we_name entry)"
    using w unfolding walkedFile_def by blast+
  define p where "p = intercalate ''/'' (ds @ [we_name entry])"
  have strip: "stripDir e (we_path entry) dir = Inr p"
    using walkedFile_stripDir [OF w] by (simp add: p_def)
  have dn: "dirname p = (if ds = [] then ''.'' else intercalate ''/'' ds)"
    unfolding p_def by (rule dirname_relative [OF ds cn])
  have mp: "modulePath (dirname p) = (if ds = [] then ''.'' else intercalate ''::'' ds)"
    using modulePath_clean [of ds] ds by (simp add: dn modulePath_dot)
  have "docItemOfEntry e dir entry =
      (if \<not> we_isFile entry \<or> startsWith p ''src/'' then Inr None
       else case groupsOf (RegExp_exec itemFileRegExp (we_name entry)) of
          Some [k, n] \<Rightarrow>
            Inr (Some \<lparr>kind = k, module = Some (modulePath (dirname p)), name = n, docDir = dir\<rparr>)
        | _ \<Rightarrow> Inr None)"
    using strip nm by (simp add: docItemOfEntry_def case_groups)
  with yields show ?thesis
    by (auto simp: RegExp_exec_itemFileRegExp mp split: if_splits option.splits)
qed

subsection \<open>Back to the file\<close>

lemma join_clean_plain:
  assumes "rs \<noteq> []" "list_all cleanSeg rs" "list_all (\<lambda>m. m = ''.'' \<or> cleanSeg m) ms"
  shows "join (pathOf rooted rs # ms) = pathOf rooted (rs @ filter cleanSeg ms)"
proof (cases "ms = []")
  case True
  with join_clean [OF assms, of rooted False] show ?thesis by simp
next
  case False
  with join_clean [OF assms, of rooted False] show ?thesis by simp
qed

lemma filter_cleanSeg_id: "list_all cleanSeg ms \<Longrightarrow> filter cleanSeg ms = ms"
  by (simp add: list_all_iff filter_id_conv)

lemma clean_or_dot: "list_all cleanSeg ms \<Longrightarrow> list_all (\<lambda>m. m = ''.'' \<or> cleanSeg m) ms"
  by (simp add: list_all_iff)

lemma cleanSeg_index: "cleanSeg ''index.html''"
  by (simp add: cleanSeg_def)

text \<open>The directory of the item: the root joined with the parts of the module path.\<close>

lemma join_module_path:
  assumes rs: "rs \<noteq> []" "list_all cleanSeg rs"
    and ds: "ds \<noteq> []" "list_all cleanSeg ds" "list_all (\<lambda>d. CHR '':'' \<notin> set d) ds"
  shows "join ((pathOf rooted rs @ (if slash then ''/'' else []))
                # split_colons [] (intercalate ''::'' ds))
     = pathOf rooted (rs @ ds)"
  using join_clean [OF rs clean_or_dot [OF ds(2)], of rooted slash] ds
  by (simp add: split_colons_intercalate filter_cleanSeg_id)

lemma join_module_dot:
  assumes rs: "rs \<noteq> []" "list_all cleanSeg rs"
  shows "join ((pathOf rooted rs @ (if slash then ''/'' else [])) # split_colons [] ''.'')
     = pathOf rooted rs"
proof -
  have "list_all (\<lambda>m. m = ''.'' \<or> cleanSeg m) [''.'']" by simp
  from join_clean [OF rs this, of rooted slash] show ?thesis
    by (simp add: cleanSeg_def)
qed

lemma path_of_module_item:
  assumes rs: "rs \<noteq> []" "list_all cleanSeg rs"
    and ds: "ds \<noteq> []" "list_all cleanSeg ds" "list_all (\<lambda>d. CHR '':'' \<notin> set d) ds"
  shows "getDocItemFilePath
           \<lparr>kind = ''module'',
            module = (if butlast ds = [] then None else Some (intercalate ''::'' (butlast ds))),
            name = last ds, docDir = pathOf rooted rs @ (if slash then ''/'' else [])\<rparr>
         = pathOf rooted (rs @ ds @ [''index.html''])"
proof -
  from ds(1) obtain ds' m where dsm: "ds = ds' @ [m]" by (cases ds rule: rev_cases) auto
  with ds have ds': "list_all cleanSeg ds'" "list_all (\<lambda>d. CHR '':'' \<notin> set d) ds'"
    and m: "cleanSeg m" by simp_all
  have two: "list_all (\<lambda>x. x = ''.'' \<or> cleanSeg x) [m, ''index.html'']"
    using m cleanSeg_index by simp
  have keep: "filter cleanSeg [m, ''index.html''] = [m, ''index.html'']"
    using m cleanSeg_index by simp
  show ?thesis
  proof (cases "ds' = []")
    case True
    from join_clean [OF rs two, of rooted slash] True dsm m cleanSeg_index show ?thesis
      by (simp add: getDocItemFilePath_def)
  next
    case False
    have rsds: "rs @ ds' \<noteq> []" "list_all cleanSeg (rs @ ds')"
      using rs ds' by simp_all
    from join_module_path [OF rs False ds', of rooted slash]
      join_clean_plain [OF rsds two, of rooted] False dsm m cleanSeg_index
    show ?thesis
      by (simp add: getDocItemFilePath_def)
  qed
qed

lemma path_of_file_item:
  assumes rs: "rs \<noteq> []" "list_all cleanSeg rs"
    and ds: "list_all cleanSeg ds" "list_all (\<lambda>d. CHR '':'' \<notin> set d) ds"
    and k: "k \<noteq> ''module''" and f: "cleanSeg (k @ ''.'' @ n @ ''.html'')"
  shows "getDocItemFilePath
           \<lparr>kind = k, module = Some (if ds = [] then ''.'' else intercalate ''::'' ds),
            name = n, docDir = pathOf rooted rs @ (if slash then ''/'' else [])\<rparr>
         = pathOf rooted (rs @ ds @ [k @ ''.'' @ n @ ''.html''])"
proof -
  have one: "list_all (\<lambda>x. x = ''.'' \<or> cleanSeg x) [k @ ''.'' @ n @ ''.html'']"
    using f by simp
  have keep: "filter cleanSeg [k @ ''.'' @ n @ ''.html''] = [k @ ''.'' @ n @ ''.html'']"
    using f by simp
  show ?thesis
  proof (cases "ds = []")
    case True
    from join_module_dot [OF rs, of rooted slash] join_clean_plain [OF rs one, of rooted] True k f
    show ?thesis
      by (simp add: getDocItemFilePath_def del: split_colons.simps)
  next
    case False
    have rsds: "rs @ ds \<noteq> []" "list_all cleanSeg (rs @ ds)"
      using rs ds by simp_all
    from join_module_path [OF rs False ds, of rooted slash]
      join_clean_plain [OF rsds one, of rooted] False k f
    show ?thesis
      by (simp add: getDocItemFilePath_def del: split_colons.simps)
  qed
qed

lemma length_split_char: "length (split_char c s) = Suc (length (filter (\<lambda>x. x = c) s))"
proof (induction s)
  case Nil
  then show ?case by simp
next
  case (Cons x xs)
  obtain y ys where "split_char c xs = y # ys"
    using split_char_nonempty [of c xs] by (cases "split_char c xs") auto
  with Cons show ?case by auto
qed

lemma itemParts_three:
  assumes "itemParts segs = Some (k, n)" "length segs \<le> 3"
  shows "segs = [k, n, ''html'']"
proof -
  from assms(1) obtain a b c rest where s: "segs = a # b # c # rest"
    by (cases segs rule: itemParts.cases) simp_all
  with assms(2) have "rest = []" by simp
  with s assms(1) show ?thesis by (simp split: if_splits)
qed

text \<open>A file name with at most two dots that the pattern matches is \<open>kind.name.html\<close>.\<close>

lemma item_file_name:
  assumes "itemParts (split_char CHR ''.'' nm) = Some (k, n)"
    and "length (filter (\<lambda>c. c = CHR ''.'') nm) \<le> 2"
  shows "nm = k @ ''.'' @ n @ ''.html''"
proof -
  have "length (split_char CHR ''.'' nm) \<le> 3"
    using assms(2) by (simp add: length_split_char)
  from itemParts_three [OF assms(1) this]
  have "intercalate ''.'' (split_char CHR ''.'' nm) = intercalate ''.'' [k, n, ''html'']"
    by simp
  then show ?thesis by (simp add: intercalate_split_char)
qed

lemma walkedFile_facts:
  assumes "walkedFile dir entry rooted rs slash ds"
  shows "rs \<noteq> []" and "list_all cleanSeg rs" and "list_all cleanSeg ds"
    and "cleanSeg (we_name entry)"
    and "dir = pathOf rooted rs @ (if slash then ''/'' else [])"
    and "we_path entry = pathOf rooted (rs @ ds @ [we_name entry])"
  using assms unfolding walkedFile_def by blast+

text \<open>
  A file named \<open>module.x.html\<close> gives an item of kind \<open>module\<close>, and the path of such an
  item is that of an \<open>index.html\<close>: here \<open>/doc/std/x/index.html\<close>, not the file walked.
\<close>

lemma module_file_not_round_trip:
  "docItemOfEntry env_doc ''/doc''
     \<lparr>we_path = ''/doc/std/module.x.html'', we_name = ''module.x.html'', we_isFile = True\<rparr>
     = Inr (Some \<lparr>kind = ''module'', module = Some ''std'', name = ''x'', docDir = ''/doc''\<rparr>)
   \<and> getDocItemFilePath \<lparr>kind = ''module'', module = Some ''std'', name = ''x'',
        docDir = ''/doc''\<rparr>
     = ''/doc/std/x/index.html''"
  by code_simp

text \<open>
  C5, as stated, fails. The file \<open>old.fn.run.html\<close> in \<open>/doc/std\<close> gives the item
  \<open>fn run\<close> of module \<open>std\<close>, whose path is \<open>/doc/std/fn.run.html\<close>: not the file walked,
  and the location of the item that the file \<open>fn.run.html\<close> gives.
\<close>

theorem round_trip_counterexample:
  "docItemOfEntry env_doc ''/doc''
     \<lparr>we_path = ''/doc/std/old.fn.run.html'', we_name = ''old.fn.run.html'', we_isFile = True\<rparr>
     = Inr (Some \<lparr>kind = ''fn'', module = Some ''std'', name = ''run'', docDir = ''/doc''\<rparr>)
   \<and> docItemOfEntry env_doc ''/doc''
     \<lparr>we_path = ''/doc/std/fn.run.html'', we_name = ''fn.run.html'', we_isFile = True\<rparr>
     = Inr (Some \<lparr>kind = ''fn'', module = Some ''std'', name = ''run'', docDir = ''/doc''\<rparr>)
   \<and> getDocItemFilePath \<lparr>kind = ''fn'', module = Some ''std'', name = ''run'', docDir = ''/doc''\<rparr>
     = ''/doc/std/fn.run.html''
   \<and> getDocItemFilePath \<lparr>kind = ''fn'', module = Some ''std'', name = ''run'', docDir = ''/doc''\<rparr>
     \<noteq> ''/doc/std/old.fn.run.html''"
  by code_simp

text \<open>
  C5, amended. Take a root that is a path of ordinary names, with no character that the
  pattern of \<open>stripDir\<close> reads as an operator, and a file below it in directories whose
  names have no colon. If the file is an \<open>index.html\<close>, or its name has at most two dots
  and does not begin with \<open>module.\<close>, and the walker yields an item for it, then
  \<open>getDocItemFilePath\<close> of that item is the path of the file walked. So two such files
  that give the same item are the same file.
\<close>

theorem getDocItemFilePath_round_trip:
  assumes w: "walkedFile dir entry rooted rs slash ds"
    and colons: "list_all (\<lambda>d. CHR '':'' \<notin> set d) ds"
    and shape: "we_name entry = ''index.html''
                \<or> (length (filter (\<lambda>c. c = CHR ''.'') (we_name entry)) \<le> 2
                    \<and> \<not> startsWith (we_name entry) ''module.'')"
    and yields: "docItemOfEntry e dir entry = Inr (Some item)"
  shows "getDocItemFilePath item = we_path entry"
proof (cases "we_name entry = ''index.html''")
  case True
  from docItemOfEntry_index_file [OF w True yields]
  have ds: "ds \<noteq> []"
    and item: "item = \<lparr>kind = ''module'',
                 module = (if butlast ds = [] then None
                           else Some (intercalate ''::'' (butlast ds))),
                 name = last ds, docDir = dir\<rparr>"
    by simp_all
  from path_of_module_item [OF walkedFile_facts(1,2) [OF w] ds walkedFile_facts(3) [OF w] colons,
      of rooted slash]
  show ?thesis
    by (simp only: item walkedFile_facts(5) [OF w] walkedFile_facts(6) [OF w] True)
next
  case False
  from docItemOfEntry_item [OF w False yields]
  obtain k n where parts: "itemParts (split_char CHR ''.'' (we_name entry)) = Some (k, n)"
    and item: "item = \<lparr>kind = k,
                      module = Some (if ds = [] then ''.'' else intercalate ''::'' ds),
                      name = n, docDir = dir\<rparr>"
    by blast
  from shape False have dots: "length (filter (\<lambda>c. c = CHR ''.'') (we_name entry)) \<le> 2"
    and nomod: "\<not> startsWith (we_name entry) ''module.''" by simp_all
  have nm: "we_name entry = k @ ''.'' @ n @ ''.html''"
    using item_file_name [OF parts dots] .
  have k: "k \<noteq> ''module''"
  proof
    assume "k = ''module''"
    with nm have "startsWith (we_name entry) ''module.''" by (simp add: startsWith_def)
    with nomod show False by simp
  qed
  have f: "cleanSeg (k @ ''.'' @ n @ ''.html'')"
    using walkedFile_facts(4) [OF w] by (simp only: nm)
  from path_of_file_item [OF walkedFile_facts(1,2) [OF w] walkedFile_facts(3) [OF w] colons k f,
      of rooted slash]
  show ?thesis
    by (simp only: item walkedFile_facts(5) [OF w] walkedFile_facts(6) [OF w] nm)
qed

theorem getDocItemFilePath_round_trip_witness:
  "walkedFile ''/doc''
     \<lparr>we_path = ''/doc/std/struct.Foo.html'', we_name = ''struct.Foo.html'', we_isFile = True\<rparr>
     True [''doc''] False [''std'']
   \<and> docItemOfEntry env_doc ''/doc''
     \<lparr>we_path = ''/doc/std/struct.Foo.html'', we_name = ''struct.Foo.html'', we_isFile = True\<rparr>
     = Inr (Some \<lparr>kind = ''struct'', module = Some ''std'', name = ''Foo'', docDir = ''/doc''\<rparr>)
   \<and> getDocItemFilePath
       \<lparr>kind = ''struct'', module = Some ''std'', name = ''Foo'', docDir = ''/doc''\<rparr>
     = ''/doc/std/struct.Foo.html''"
proof -
  define entry where "entry =
    \<lparr>we_path = ''/doc/std/struct.Foo.html'', we_name = ''struct.Foo.html'', we_isFile = True\<rparr>"
  have w: "walkedFile ''/doc'' entry True [''doc''] False [''std'']"
    unfolding entry_def by code_simp
  have colons: "list_all (\<lambda>d. CHR '':'' \<notin> set d) [''std'']" by simp
  have shape: "we_name entry = ''index.html''
                \<or> (length (filter (\<lambda>c. c = CHR ''.'') (we_name entry)) \<le> 2
                    \<and> \<not> startsWith (we_name entry) ''module.'')"
    unfolding entry_def by code_simp
  have yields: "docItemOfEntry env_doc ''/doc'' entry
      = Inr (Some \<lparr>kind = ''struct'', module = Some ''std'', name = ''Foo'', docDir = ''/doc''\<rparr>)"
    unfolding entry_def by code_simp
  from getDocItemFilePath_round_trip [OF w colons shape yields] w yields
  show ?thesis by (simp add: entry_def)
qed

subsection \<open>A file at the top of the root\<close>

lemma exec_struct_Foo:
  "RegExp_exec itemFileRegExp ''struct.Foo.html''
     = Some ([], ''struct.Foo.html'', [], [''struct'', ''Foo''])"
  by code_simp

lemma modulePath_top: "modulePath (dirname ''struct.Foo.html'') = ''.''"
  by code_simp

lemma not_src_struct_Foo: "\<not> startsWith ''struct.Foo.html'' ''src/''"
  by code_simp

text \<open>
  C3, as stated, fails: \<open>dirname\<close> of a bare file name is \<open>.\<close>, not the empty string, and
  nothing in this branch of \<open>getDocItems\<close> replaces it. The module of the item is the
  string \<open>.\<close>.
\<close>

theorem top_level_module_counterexample:
  "getDocItems env_doc ''/doc''
     = ([\<lparr>kind = ''struct'', module = Some ''.'', name = ''Foo'', docDir = ''/doc''\<rparr>], None)
   \<and> getDocItems env_doc ''/doc''
     \<noteq> ([\<lparr>kind = ''struct'', module = Some [], name = ''Foo'', docDir = ''/doc''\<rparr>], None)"
  by (simp add: getDocItems_env_doc)

text \<open>
  C3, amended. For a root that is a path of ordinary names, with no character that the
  pattern of \<open>stripDir\<close> reads as an operator, the file \<open>struct.Foo.html\<close> at the top level
  gives exactly the item of kind \<open>struct\<close> and name \<open>Foo\<close> whose module is the string \<open>.\<close>
  (not \<open>null\<close>, and not empty); when the walk gives that file only, this item is all that
  \<open>getDocItems\<close> yields.
\<close>

theorem getDocItems_top_level_struct:
  assumes w: "walkedFile dir entry rooted rs slash []"
    and nm: "we_name entry = ''struct.Foo.html''"
    and isfile: "we_isFile entry"
  shows "docItemOfEntry e dir entry
           = Inr (Some \<lparr>kind = ''struct'', module = Some ''.'', name = ''Foo'', docDir = dir\<rparr>)
         \<and> (walk e dir = ([entry], None) \<longrightarrow>
              getDocItems e dir
                = ([\<lparr>kind = ''struct'', module = Some ''.'', name = ''Foo'', docDir = dir\<rparr>],
                   None))"
proof -
  have "stripDir e (we_path entry) dir = Inr ''struct.Foo.html''"
    using walkedFile_stripDir [OF w] by (simp add: nm)
  then have "docItemOfEntry e dir entry
      = Inr (Some \<lparr>kind = ''struct'', module = Some ''.'', name = ''Foo'', docDir = dir\<rparr>)"
    using isfile
    by (simp add: docItemOfEntry_def nm exec_struct_Foo modulePath_top not_src_struct_Foo)
  then show ?thesis
    by (simp add: getDocItems_def)
qed

theorem getDocItems_top_level_struct_witness:
  "walkedFile ''/doc''
     \<lparr>we_path = ''/doc/struct.Foo.html'', we_name = ''struct.Foo.html'', we_isFile = True\<rparr>
     True [''doc''] False []
   \<and> getDocItems env_doc ''/doc''
     = ([\<lparr>kind = ''struct'', module = Some ''.'', name = ''Foo'', docDir = ''/doc''\<rparr>], None)"
proof -
  define entry where "entry =
    \<lparr>we_path = ''/doc/struct.Foo.html'', we_name = ''struct.Foo.html'', we_isFile = True\<rparr>"
  have w: "walkedFile ''/doc'' entry True [''doc''] False []"
    unfolding entry_def by code_simp
  have nm: "we_name entry = ''struct.Foo.html''" by (simp add: entry_def)
  have isfile: "we_isFile entry" by (simp add: entry_def)
  have walked: "walk env_doc ''/doc'' = ([entry], None)"
    by (simp add: env_doc_def entry_def)
  from getDocItems_top_level_struct [OF w nm isfile, of env_doc] walked w show ?thesis
    by (simp add: entry_def)
qed

section \<open>The upward search on paths of ordinary names\<close>

lemma dirname_root_single:
  assumes "x \<noteq> []" "CHR ''/'' \<notin> set x"
  shows "dirname (CHR ''/'' # x) = ''/''"
proof -
  have r: "dropWhile (\<lambda>c. c \<noteq> CHR ''/'') (dropWhile (\<lambda>c. c = CHR ''/'') (rev x)) = []"
    by (simp only: rev_component(1) [OF assms, of "[]", simplified] rev_component(4) [OF assms])
  have t: "tl (CHR ''/'' # x) = x" by simp
  have h: "hd (CHR ''/'' # x) = CHR ''/''" by simp
  have ne: "(CHR ''/'' # x = []) = False" by simp
  show ?thesis unfolding dirname_def Let_def t h r ne by (simp only: if_False if_True simp_thms)
qed

lemma dirname_pathOf:
  assumes "list_all cleanSeg segs" "cleanSeg x"
  shows "dirname (pathOf rooted (segs @ [x]))
     = (if segs = [] then (if rooted then ''/'' else ''.'') else pathOf rooted segs)"
proof (cases "segs = []")
  case True
  have x: "x \<noteq> []" "CHR ''/'' \<notin> set x" using assms(2) unfolding cleanSeg_def by blast+
  have "pathOf rooted (segs @ [x]) = (if rooted then CHR ''/'' # x else x)"
    using True by (simp add: pathOf_def)
  then have "dirname (pathOf rooted (segs @ [x])) = (if rooted then ''/'' else ''.'')"
    using dirname_root_single [OF x] dirname_single [OF x] by (cases rooted) (simp_all only: if_True if_False)
  with True show ?thesis by (simp only: if_True simp_thms)
next
  case False
  have x: "x \<noteq> []" "CHR ''/'' \<notin> set x" using assms(2) unfolding cleanSeg_def by blast+
  have rel: "intercalate ''/'' segs \<noteq> []" using relative_not_dot(2) [OF False assms(1)] .
  have q: "pathOf rooted segs \<noteq> []" "pathOf rooted segs \<noteq> ''/''"
  proof -
    show "pathOf rooted segs \<noteq> []" using rel by (simp add: pathOf_def)
    show "pathOf rooted segs \<noteq> ''/''"
    proof (cases rooted)
      case True
      with rel show ?thesis by (simp add: pathOf_def)
    next
      case False
      with relative_not_dot(3) [OF \<open>segs \<noteq> []\<close> assms(1)] show ?thesis
        by (simp add: pathOf_def)
    qed
  qed
  have "pathOf rooted (segs @ [x]) = pathOf rooted segs @ CHR ''/'' # x"
    using pathOf_append [OF False, of "[x]" rooted] by simp
  then have "dirname (pathOf rooted (segs @ [x])) = pathOf rooted segs"
    using dirname_last_component [OF x q] by (simp only:)
  with False show ?thesis by (simp only: if_False)
qed

lemma pathOf_not_terminal:
  assumes "segs \<noteq> []" "list_all cleanSeg segs"
  shows "\<not> (pathOf rooted segs = ''/'' \<or> pathOf rooted segs = ''.'' \<or> pathOf rooted segs = [])"
proof (cases rooted)
  case True
  have "intercalate ''/'' segs \<noteq> []" using relative_not_dot(2) [OF assms] .
  then obtain c cs where "intercalate ''/'' segs = c # cs" by (cases "intercalate ''/'' segs") auto
  with True show ?thesis by (simp add: pathOf_def)
next
  case False
  then have "pathOf rooted segs = intercalate ''/'' segs" by (simp add: pathOf_def)
  with relative_not_dot [OF assms] show ?thesis by metis
qed

text \<open>From a path of ordinary names the search visits the path and then each shorter
  path in turn, down to the first name.\<close>

lemma ancestors_terminal_paths: "ancestors ''/'' = []" "ancestors ''.'' = []" "ancestors [] = []"
  by (subst ancestors.simps, simp)+

lemma ancestors_step:
  "\<not> (p = ''/'' \<or> p = ''.'' \<or> p = []) \<Longrightarrow> ancestors p = p # ancestors (dirname p)"
  by (subst ancestors.simps) (simp only: if_False)

lemma ancestors_pathOf:
  "list_all cleanSeg segs \<Longrightarrow>
   ancestors (pathOf rooted segs)
     = map (\<lambda>k. pathOf rooted (take k segs)) (rev [1..<Suc (length segs)])"
proof (induction segs rule: rev_induct)
  case Nil
  show ?case
    by (cases rooted) (simp_all add: pathOf_def ancestors_terminal_paths)
next
  case (snoc x segs)
  then have segs: "list_all cleanSeg segs" and x: "cleanSeg x" by simp_all
  have all: "segs @ [x] \<noteq> []" "list_all cleanSeg (segs @ [x])" using segs x by simp_all
  have step: "ancestors (pathOf rooted (segs @ [x]))
      = pathOf rooted (segs @ [x]) # ancestors (dirname (pathOf rooted (segs @ [x])))"
    by (rule ancestors_step [OF pathOf_not_terminal [OF all]])
  have rest: "ancestors (dirname (pathOf rooted (segs @ [x])))
      = map (\<lambda>k. pathOf rooted (take k segs)) (rev [1..<Suc (length segs)])"
  proof (cases "segs = []")
    case True
    have "dirname (pathOf rooted (segs @ [x])) = (if rooted then ''/'' else ''.'')"
      using dirname_pathOf [OF segs x, of rooted] True by simp
    then have "ancestors (dirname (pathOf rooted (segs @ [x]))) = []"
      by (cases rooted) (simp_all only: if_True if_False ancestors_terminal_paths)
    with True show ?thesis by simp
  next
    case False
    have "dirname (pathOf rooted (segs @ [x])) = pathOf rooted segs"
      using dirname_pathOf [OF segs x, of rooted] False by simp
    with snoc.IH [OF segs] show ?thesis by (simp only:)
  qed
  have idx: "map (\<lambda>k. pathOf rooted (take k (segs @ [x]))) (rev [1..<Suc (length segs)])
      = map (\<lambda>k. pathOf rooted (take k segs)) (rev [1..<Suc (length segs)])"
    by (rule map_cong) auto
  have upt: "rev [1..<Suc (length (segs @ [x]))] = Suc (length segs) # rev [1..<Suc (length segs)]"
    by simp
  have top: "pathOf rooted (take (Suc (length segs)) (segs @ [x])) = pathOf rooted (segs @ [x])"
    by simp
  show ?case
    unfolding upt by (simp only: list.map top idx step rest)
qed

text \<open>
  C9. \<open>findCargoProjectDir\<close> is total. From any starting path it looks for the marker
  file in the starting directory and then in each parent in turn (\<open>ancestors\<close>: the path,
  then its \<open>dirname\<close>, and so on, ending before \<open>/\<close>, \<open>.\<close> or the empty path), stops at
  the first directory that has it and returns that directory, resolved; with no such
  directory it returns nothing. For a path of ordinary names the parents are the shorter
  paths, longest first: from \<open>/a/b/c\<close> they are \<open>/a/b/c\<close>, \<open>/a/b\<close>, \<open>/a\<close>.
\<close>

theorem findCargoProjectDir_upward_search:
  "findCargoProjectDir e p =
     (map_option (resolve (cwd e)) (find (hasMarker e) (ancestors p)),
      map (\<lambda>d. join [d, ''Cargo.toml'']) (examined e (ancestors p)))
   \<and> (list_all cleanSeg segs \<longrightarrow>
        ancestors (pathOf rooted segs)
          = map (\<lambda>k. pathOf rooted (take k segs)) (rev [1..<Suc (length segs)]))
   \<and> findCargoProjectDir e ''/'' = (None, [])
   \<and> findCargoProjectDir e ''.'' = (None, [])
   \<and> findCargoProjectDir e [] = (None, [])"
proof -
  have "findCargoProjectDir e ''/'' = (None, [])"
    by (subst findCargoProjectDir.simps) simp
  moreover have "findCargoProjectDir e ''.'' = (None, [])"
    by (subst findCargoProjectDir.simps) simp
  moreover have "findCargoProjectDir e [] = (None, [])"
    by (subst findCargoProjectDir.simps) simp
  ultimately show ?thesis
    using findCargoProjectDir_ancestors [of e p] ancestors_pathOf [of segs rooted]
    by blast
qed

text \<open>The search from \<open>/a/b/c\<close> with the marker only in \<open>/a\<close>: the three directories are
  probed in order and \<open>/a\<close> is returned.\<close>

theorem findCargoProjectDir_upward_search_witness:
  "list_all cleanSeg [''a'', ''b'', ''c'']
   \<and> ancestors ''/a/b/c'' = [''/a/b/c'', ''/a/b'', ''/a'']
   \<and> findCargoProjectDir env_marker_at_a ''/a/b/c''
       = (Some ''/a'', [''/a/b/c/Cargo.toml'', ''/a/b/Cargo.toml'', ''/a/Cargo.toml''])"
proof -
  have clean: "list_all cleanSeg [''a'', ''b'', ''c'']" by code_simp
  have path: "pathOf True [''a'', ''b'', ''c''] = ''/a/b/c''" by code_simp
  have shorter: "map (\<lambda>k. pathOf True (take k [''a'', ''b'', ''c'']))
                   (rev [1..<Suc (length [''a'', ''b'', ''c''])])
                 = [''/a/b/c'', ''/a/b'', ''/a'']" by code_simp
  have found: "map_option (resolve (cwd env_marker_at_a))
                 (find (hasMarker env_marker_at_a) [''/a/b/c'', ''/a/b'', ''/a'']) = Some ''/a''"
    by code_simp
  have probes: "map (\<lambda>d. join [d, ''Cargo.toml''])
                  (examined env_marker_at_a [''/a/b/c'', ''/a/b'', ''/a''])
                = [''/a/b/c/Cargo.toml'', ''/a/b/Cargo.toml'', ''/a/Cargo.toml'']"
    by code_simp
  from findCargoProjectDir_upward_search
         [of env_marker_at_a "''/a/b/c''" "[''a'', ''b'', ''c'']" True]
  have anc: "ancestors ''/a/b/c'' = [''/a/b/c'', ''/a/b'', ''/a'']"
    and res: "findCargoProjectDir env_marker_at_a ''/a/b/c'' =
      (map_option (resolve (cwd env_marker_at_a))
         (find (hasMarker env_marker_at_a) (ancestors ''/a/b/c'')),
       map (\<lambda>d. join [d, ''Cargo.toml'']) (examined env_marker_at_a (ancestors ''/a/b/c'')))"
    using clean by (simp_all only: path shorter simp_thms)
  from res have "findCargoProjectDir env_marker_at_a ''/a/b/c''
       = (Some ''/a'', [''/a/b/c/Cargo.toml'', ''/a/b/Cargo.toml'', ''/a/Cargo.toml''])"
    by (simp only: anc found probes)
  with clean anc show ?thesis by (simp only: simp_thms)
qed

end
